theory Spec2Isabelle
  imports Main "HOL-Library.Word" "HOL-Library.Signed_Division" "HOL-Library.Sublist"
begin

section \<open>Data model\<close>

text \<open>
  The chunk-manifest layer of the filer (\<^verbatim>\<open>weed/filer/filechunk_manifest.go\<close>).
  Go's \<^verbatim>\<open>int64\<close> and \<^verbatim>\<open>uint64\<close> are 64-bit words (\<open>+\<close> and \<open>-\<close> wrap, \<open>sint\<close>
  reads the signed value); Go's \<^verbatim>\<open>int\<close> counts of bytes and of slice elements held in
  memory are \<open>int\<close>; a \<^verbatim>\<open>time.Duration\<close> is an \<open>int\<close> of nanoseconds with the 64-bit
  wrap-around written out (\<open>i64\<close>).
\<close>

type_synonym byte = "8 word"
type_synonym int64 = "64 word"
type_synonym uint64 = "64 word"

text \<open>
  Errors are values. The collaborators (lookup, transport, container format, store)
  produce \<open>External\<close> errors; the other constructors are the \<^verbatim>\<open>fmt.Errorf\<close> wrappers
  of the source.
\<close>

datatype error =
    External string
  | FailToReadManifest string error
  | FailToUnmarshalManifest string error
  | SerializingManifest error

text \<open>
  Modelled from the spec: the declaration of \<^verbatim>\<open>filer_pb.FileChunk\<close> is not part of
  the source file; the fields are those of the Chunk record of the wire format
  (id, offset: int64, size: uint64, cipherKey, isCompressed, isManifest), under the
  names the source uses for them. \<^verbatim>\<open>GetFileIdString\<close> reads the id.
\<close>

record FileChunk =
  FileId :: string
  Offset :: int64
  Size :: uint64
  CipherKey :: "byte list"
  IsCompressed :: bool
  IsChunkManifest :: bool

definition GetFileIdString :: "FileChunk \<Rightarrow> string" where
  "GetFileIdString chunk = FileId chunk"

section \<open>The transport and the world it acts on\<close>

text \<open>
  One call of \<^verbatim>\<open>util.ReadUrlAsStream(url, cipherKey, isGzipped, isFullChunk, offset, size, fn)\<close>
  is a request; what it does is a response: the byte slices it hands to the callback
  \<open>fn\<close>, in order, and the pair \<open>(shouldRetry, err)\<close> it returns. The transport is a
  parameter of the model: a function of the requests made before and of the
  request itself, so that it may answer the same location differently on each attempt.
\<close>

record request =
  req_url :: string
  req_cipherKey :: "byte list"
  req_isGzipped :: bool
  req_isFullChunk :: bool
  req_offset :: int64
  req_size :: int

record response =
  resp_data :: "byte list list"
  resp_shouldRetry :: bool
  resp_err :: "error option"

type_synonym transport = "request list \<Rightarrow> request \<Rightarrow> response"

text \<open>
  The observable effects besides the results: the requests sent to the transport and
  the durations passed to \<^verbatim>\<open>time.Sleep\<close>, both in order.
\<close>

record world =
  calls :: "request list"
  sleeps :: "int list"

definition Second :: int where
  "Second = 1000000000"

definition i64 :: "int \<Rightarrow> int" where
  "i64 x = (x + 2 ^ 63) mod 2 ^ 64 - 2 ^ 63"

text \<open>The loop header's \<^verbatim>\<open>waitTime += waitTime / 2\<close> on \<^verbatim>\<open>int64\<close> nanoseconds.\<close>

definition nextWait :: "int \<Rightarrow> int" where
  "nextWait waitTime = i64 (waitTime + waitTime sdiv 2)"

section \<open>Whole-chunk streaming fetch\<close>

text \<open>
  The locals of \<^verbatim>\<open>retriedStreamFetchChunkData\<close> that live across attempts, with the
  writer's content and the world.
\<close>

record stream_state =
  s_world :: world
  s_sink :: "byte list"
  s_totalWritten :: int
  s_shouldRetry :: bool
  s_err :: "error option"

text \<open>
  The callback of the streaming fetch, on the triple
  \<open>(sink, totalWritten, localProcesed)\<close> it closes over.
\<close>

fun streamOnData :: "byte list \<times> int \<times> int \<Rightarrow> byte list \<Rightarrow> byte list \<times> int \<times> int" where
  "streamOnData (sink, totalWritten, localProcesed) data =
     (if totalWritten > localProcesed then
        (let toBeSkipped = totalWritten - localProcesed in
         if int (length data) \<le> toBeSkipped then
           (sink, totalWritten, localProcesed + int (length data))
         else
           (let data' = drop (nat toBeSkipped) data;
                localProcesed' = localProcesed + toBeSkipped
            in (sink @ data', totalWritten + int (length data'),
                localProcesed' + int (length data'))))
      else
        (sink @ data, totalWritten + int (length data), localProcesed + int (length data)))"

definition streamRequest :: "string \<Rightarrow> byte list \<Rightarrow> bool \<Rightarrow> bool \<Rightarrow> int64 \<Rightarrow> int \<Rightarrow> request" where
  "streamRequest urlString cipherKey isGzipped isFullChunk offset size' =
     \<lparr>req_url = urlString @ ''?readDeleted=true'', req_cipherKey = cipherKey,
      req_isGzipped = isGzipped, req_isFullChunk = isFullChunk,
      req_offset = offset, req_size = size'\<rparr>"

text \<open>One attempt: the transport is called and feeds the callback.\<close>

definition streamAttempt :: "transport \<Rightarrow> request \<Rightarrow> stream_state \<Rightarrow> stream_state" where
  "streamAttempt tr rq s =
     (let resp = tr (calls (s_world s)) rq;
          (sink', totalWritten', localProcesed') =
             foldl streamOnData (s_sink s, s_totalWritten s, 0) (resp_data resp)
      in s\<lparr>s_world := (s_world s)\<lparr>calls := calls (s_world s) @ [rq]\<rparr>,
           s_sink := sink', s_totalWritten := totalWritten',
           s_shouldRetry := resp_shouldRetry resp, s_err := resp_err resp\<rparr>)"

text \<open>The inner loop, one round over the locations.\<close>

fun streamRound ::
  "transport \<Rightarrow> byte list \<Rightarrow> bool \<Rightarrow> bool \<Rightarrow> int64 \<Rightarrow> int \<Rightarrow> string list \<Rightarrow> stream_state \<Rightarrow> stream_state"
where
  "streamRound tr cipherKey isGzipped isFullChunk offset size' [] s = s"
| "streamRound tr cipherKey isGzipped isFullChunk offset size' (urlString # urlStrings) s =
     (let s' = streamAttempt tr (streamRequest urlString cipherKey isGzipped isFullChunk offset size') s
      in if \<not> s_shouldRetry s' then s'
         else if s_err s' \<noteq> None then
           streamRound tr cipherKey isGzipped isFullChunk offset size' urlStrings s'
         else s')"

definition streamSleep :: "int \<Rightarrow> stream_state \<Rightarrow> stream_state" where
  "streamSleep waitTime s = s\<lparr>s_world := (s_world s)\<lparr>sleeps := sleeps (s_world s) @ [waitTime]\<rparr>\<rparr>"

text \<open>
  The outer loop. It may run forever (nothing in the source bounds it but the
  ceiling \<^verbatim>\<open>util.RetryWaitTime\<close>, a constant that is not in the source file and is a
  parameter here), so not returning is the value \<open>None\<close>.
\<close>

partial_function (option) streamRounds ::
  "transport \<Rightarrow> int \<Rightarrow> byte list \<Rightarrow> bool \<Rightarrow> bool \<Rightarrow> int64 \<Rightarrow> int \<Rightarrow> string list \<Rightarrow> int \<Rightarrow> stream_state \<Rightarrow> stream_state option"
where
  "streamRounds tr RetryWaitTime cipherKey isGzipped isFullChunk offset size' urlStrings waitTime s =
     (if waitTime < RetryWaitTime then
        (let s' = streamRound tr cipherKey isGzipped isFullChunk offset size' urlStrings s
         in if s_err s' \<noteq> None \<and> s_shouldRetry s' then
              streamRounds tr RetryWaitTime cipherKey isGzipped isFullChunk offset size' urlStrings
                (nextWait waitTime) (streamSleep waitTime s')
            else Some s')
      else Some s)"

text \<open>
  \<^verbatim>\<open>retriedStreamFetchChunkData\<close>: the writer's content and the world go in, the
  returned error comes out with the new content and world.
\<close>

definition retriedStreamFetchChunkData ::
  "transport \<Rightarrow> int \<Rightarrow> world \<Rightarrow> byte list \<Rightarrow> string list \<Rightarrow> byte list \<Rightarrow> bool \<Rightarrow> bool \<Rightarrow> int64 \<Rightarrow> int
   \<Rightarrow> (error option \<times> byte list \<times> world) option"
where
  "retriedStreamFetchChunkData tr RetryWaitTime w writer urlStrings cipherKey isGzipped isFullChunk offset size' =
     (case streamRounds tr RetryWaitTime cipherKey isGzipped isFullChunk offset size' urlStrings Second
             \<lparr>s_world = w, s_sink = writer, s_totalWritten = 0, s_shouldRetry = False, s_err = None\<rparr>
      of None \<Rightarrow> None
       | Some s \<Rightarrow> Some (s_err s, s_sink s, s_world s))"

text \<open>
  \<^verbatim>\<open>fetchWholeChunk\<close>. A failed lookup is returned at once; the transport is not
  called.
\<close>

type_synonym lookupFn = "string \<Rightarrow> error + string list"

definition fetchWholeChunk ::
  "transport \<Rightarrow> int \<Rightarrow> world \<Rightarrow> byte list \<Rightarrow> lookupFn \<Rightarrow> string \<Rightarrow> byte list \<Rightarrow> bool
   \<Rightarrow> (error option \<times> byte list \<times> world) option"
where
  "fetchWholeChunk tr RetryWaitTime w bytesBuffer lookupFileIdFn fileId cipherKey isGzipped =
     (case lookupFileIdFn fileId of
        Inl err \<Rightarrow> Some (Some err, bytesBuffer, w)
      | Inr urlStrings \<Rightarrow>
          (case retriedStreamFetchChunkData tr RetryWaitTime w bytesBuffer urlStrings cipherKey isGzipped True 0 0 of
             None \<Rightarrow> None
           | Some (err, bytesBuffer', w') \<Rightarrow>
               (if err \<noteq> None then Some (err, bytesBuffer', w')
                else Some (None, bytesBuffer', w'))))"

section \<open>Range fetch\<close>

text \<open>Go's builtin \<^verbatim>\<open>copy(dst, src)\<close>: the new \<open>dst\<close> and the number of bytes copied.\<close>

definition copy :: "byte list \<Rightarrow> byte list \<Rightarrow> byte list \<times> int" where
  "copy dst src =
     (let x = min (length dst) (length src) in (take x src @ drop x dst, int x))"

text \<open>
  The callback of the range fetch, on the pair \<open>(buffer, n)\<close> it closes over;
  \<^verbatim>\<open>buffer[n:]\<close> is the part of the buffer from index \<open>n\<close> on, in place.
\<close>

fun rangeOnData :: "byte list \<times> int \<Rightarrow> byte list \<Rightarrow> byte list \<times> int" where
  "rangeOnData (buffer, n) data =
     (if n < int (length buffer) then
        (let (tail', x) = copy (drop (nat n) buffer) data
         in (take (nat n) buffer @ tail', n + x))
      else (buffer, n))"

record range_state =
  r_world :: world
  r_buffer :: "byte list"
  r_n :: int
  r_shouldRetry :: bool
  r_err :: "error option"

text \<open>
  \<^verbatim>\<open>url.PathEscape\<close> belongs to Go's library and is a parameter; \<^verbatim>\<open>strings.Contains\<close>
  of the one-character string is membership of the character.
\<close>

definition rangeRequest ::
  "(string \<Rightarrow> string) \<Rightarrow> string \<Rightarrow> byte list \<Rightarrow> bool \<Rightarrow> bool \<Rightarrow> int64 \<Rightarrow> int \<Rightarrow> request"
where
  "rangeRequest PathEscape urlString cipherKey isGzipped isFullChunk offset size' =
     (let urlString' = (if CHR ''%'' \<in> set urlString then PathEscape urlString else urlString)
      in \<lparr>req_url = urlString' @ ''?readDeleted=true'', req_cipherKey = cipherKey,
          req_isGzipped = isGzipped, req_isFullChunk = isFullChunk,
          req_offset = offset, req_size = size'\<rparr>)"

text \<open>One attempt: \<open>n\<close> is set to zero, then the transport feeds the callback.\<close>

definition rangeAttempt :: "transport \<Rightarrow> request \<Rightarrow> range_state \<Rightarrow> range_state" where
  "rangeAttempt tr rq s =
     (let resp = tr (calls (r_world s)) rq;
          (buffer', n') = foldl rangeOnData (r_buffer s, 0) (resp_data resp)
      in s\<lparr>r_world := (r_world s)\<lparr>calls := calls (r_world s) @ [rq]\<rparr>,
           r_buffer := buffer', r_n := n',
           r_shouldRetry := resp_shouldRetry resp, r_err := resp_err resp\<rparr>)"

fun rangeRound ::
  "transport \<Rightarrow> (string \<Rightarrow> string) \<Rightarrow> byte list \<Rightarrow> bool \<Rightarrow> bool \<Rightarrow> int64 \<Rightarrow> string list \<Rightarrow> range_state \<Rightarrow> range_state"
where
  "rangeRound tr PathEscape cipherKey isGzipped isFullChunk offset [] s = s"
| "rangeRound tr PathEscape cipherKey isGzipped isFullChunk offset (urlString # urlStrings) s =
     (let s' = rangeAttempt tr
                 (rangeRequest PathEscape urlString cipherKey isGzipped isFullChunk offset
                    (int (length (r_buffer s)))) s
      in if \<not> r_shouldRetry s' then s'
         else if r_err s' \<noteq> None then
           rangeRound tr PathEscape cipherKey isGzipped isFullChunk offset urlStrings s'
         else s')"

definition rangeSleep :: "int \<Rightarrow> range_state \<Rightarrow> range_state" where
  "rangeSleep waitTime s = s\<lparr>r_world := (r_world s)\<lparr>sleeps := sleeps (r_world s) @ [waitTime]\<rparr>\<rparr>"

partial_function (option) rangeRounds ::
  "transport \<Rightarrow> int \<Rightarrow> (string \<Rightarrow> string) \<Rightarrow> byte list \<Rightarrow> bool \<Rightarrow> bool \<Rightarrow> int64 \<Rightarrow> string list \<Rightarrow> int \<Rightarrow> range_state \<Rightarrow> range_state option"
where
  "rangeRounds tr RetryWaitTime PathEscape cipherKey isGzipped isFullChunk offset urlStrings waitTime s =
     (if waitTime < RetryWaitTime then
        (let s' = rangeRound tr PathEscape cipherKey isGzipped isFullChunk offset urlStrings s
         in if r_err s' \<noteq> None \<and> r_shouldRetry s' then
              rangeRounds tr RetryWaitTime PathEscape cipherKey isGzipped isFullChunk offset urlStrings
                (nextWait waitTime) (rangeSleep waitTime s')
            else Some s')
      else Some s)"

text \<open>
  \<^verbatim>\<open>retriedFetchChunkData\<close>: returns \<open>(n, err)\<close>, with the buffer and the world as
  it leaves them.
\<close>

definition retriedFetchChunkData ::
  "transport \<Rightarrow> int \<Rightarrow> (string \<Rightarrow> string) \<Rightarrow> world \<Rightarrow> byte list \<Rightarrow> string list \<Rightarrow> byte list \<Rightarrow> bool \<Rightarrow> bool \<Rightarrow> int64
   \<Rightarrow> (int \<times> error option \<times> byte list \<times> world) option"
where
  "retriedFetchChunkData tr RetryWaitTime PathEscape w buffer urlStrings cipherKey isGzipped isFullChunk offset =
     (case rangeRounds tr RetryWaitTime PathEscape cipherKey isGzipped isFullChunk offset urlStrings Second
             \<lparr>r_world = w, r_buffer = buffer, r_n = 0, r_shouldRetry = False, r_err = None\<rparr>
      of None \<Rightarrow> None
       | Some s \<Rightarrow> Some (r_n s, r_err s, r_buffer s, r_world s))"

definition fetchChunkRange ::
  "transport \<Rightarrow> int \<Rightarrow> (string \<Rightarrow> string) \<Rightarrow> world \<Rightarrow> byte list \<Rightarrow> lookupFn \<Rightarrow> string \<Rightarrow> byte list \<Rightarrow> bool \<Rightarrow> int64
   \<Rightarrow> (int \<times> error option \<times> byte list \<times> world) option"
where
  "fetchChunkRange tr RetryWaitTime PathEscape w buffer lookupFileIdFn fileId cipherKey isGzipped offset =
     (case lookupFileIdFn fileId of
        Inl err \<Rightarrow> Some (0, Some err, buffer, w)
      | Inr urlStrings \<Rightarrow>
          retriedFetchChunkData tr RetryWaitTime PathEscape w buffer urlStrings cipherKey isGzipped False offset)"

section \<open>Manifest classifier\<close>

fun HasChunkManifest :: "FileChunk list \<Rightarrow> bool" where
  "HasChunkManifest [] = False"
| "HasChunkManifest (chunk # chunks) = (if IsChunkManifest chunk then True else HasChunkManifest chunks)"

text \<open>\<^verbatim>\<open>SeparateManifestChunks\<close>: the loop appends to one of the two results.\<close>

fun separateLoop :: "FileChunk list \<Rightarrow> FileChunk list \<times> FileChunk list \<Rightarrow> FileChunk list \<times> FileChunk list" where
  "separateLoop [] (manifestChunks, nonManifestChunks) = (manifestChunks, nonManifestChunks)"
| "separateLoop (c # chunks) (manifestChunks, nonManifestChunks) =
     (if IsChunkManifest c then separateLoop chunks (manifestChunks @ [c], nonManifestChunks)
      else separateLoop chunks (manifestChunks, nonManifestChunks @ [c]))"

definition SeparateManifestChunks :: "FileChunk list \<Rightarrow> FileChunk list \<times> FileChunk list" where
  "SeparateManifestChunks chunks = separateLoop chunks ([], [])"

section \<open>Manifest resolver\<close>

text \<open>
  Modelled from the spec: \<^verbatim>\<open>max\<close> and \<^verbatim>\<open>min\<close> on \<^verbatim>\<open>int64\<close> are helpers of the package
  that the source file calls and does not declare; the range test of the spec,
  \<open>max(chunk.offset, startOffset) < min(chunk.offset+chunk.size, stopOffset)\<close>, uses them as
  the larger and the smaller of two signed values.
\<close>

definition max64 :: "int64 \<Rightarrow> int64 \<Rightarrow> int64" where
  "max64 x y = (if sint x \<le> sint y then y else x)"

definition min64 :: "int64 \<Rightarrow> int64 \<Rightarrow> int64" where
  "min64 x y = (if sint x \<le> sint y then x else y)"

text \<open>
  What the resolver and the decoder take from outside the source file: the transport and
  its ceiling, \<^verbatim>\<open>proto.Unmarshal\<close> into a manifest (its chunk list, or an error),
  \<^verbatim>\<open>filer_pb.AfterEntryDeserialization\<close> (the chunk list as it leaves it), and the two
  identifiers \<^verbatim>\<open>subDataChunks\<close> and \<^verbatim>\<open>subManifestChunks\<close>, which
  \<^verbatim>\<open>ResolveChunkManifest\<close> reads and no declaration of the source file binds.
\<close>

record externals =
  ext_ReadUrlAsStream :: transport
  ext_RetryWaitTime :: int
  ext_Unmarshal :: "byte list \<Rightarrow> error + FileChunk list"
  ext_AfterEntryDeserialization :: "FileChunk list \<Rightarrow> FileChunk list"
  ext_subDataChunks :: "FileChunk list"
  ext_subManifestChunks :: "FileChunk list"

text \<open>
  \<^verbatim>\<open>ResolveOneChunkManifest\<close>. The buffer taken from the pool is reset, so the fetch
  writes into an empty one. \<open>Inl\<close> is the error return (with no chunks).
\<close>

definition ResolveOneChunkManifest ::
  "externals \<Rightarrow> world \<Rightarrow> lookupFn \<Rightarrow> FileChunk \<Rightarrow> ((error + FileChunk list) \<times> world) option"
where
  "ResolveOneChunkManifest ext w lookupFileIdFn chunk =
     (if \<not> IsChunkManifest chunk then Some (Inr [], w)
      else
        (case fetchWholeChunk (ext_ReadUrlAsStream ext) (ext_RetryWaitTime ext) w [] lookupFileIdFn
                (GetFileIdString chunk) (CipherKey chunk) (IsCompressed chunk) of
           None \<Rightarrow> None
         | Some (Some err, bytesBuffer, w') \<Rightarrow>
             Some (Inl (FailToReadManifest (GetFileIdString chunk) err), w')
         | Some (None, bytesBuffer, w') \<Rightarrow>
             (case ext_Unmarshal ext bytesBuffer of
                Inl err \<Rightarrow> Some (Inl (FailToUnmarshalManifest (GetFileIdString chunk) err), w')
              | Inr mChunks \<Rightarrow> Some (Inr (ext_AfterEntryDeserialization ext mChunks), w'))))"

text \<open>
  \<^verbatim>\<open>ResolveChunkManifest\<close>. The loop runs over the rest of \<open>chunks\<close> with the named
  results \<open>dataChunks\<close> and \<open>manifestChunks\<close> as accumulators; \<open>chunks\<close> itself is kept
  for the error returns. The first argument bounds the depth of the recursive calls
  (the goroutine's stack): with none left the call does not return (\<open>None\<close>).

  After a manifest is decoded, the source's statement
  \<^verbatim>\<open>dataChunks, manifestChunks, subErr := ResolveChunkManifest(...)\<close> stands inside the
  body of the \<^verbatim>\<open>for\<close>: it declares three new variables of that block, which hide the
  named results until the end of the iteration. The two \<^verbatim>\<open>append\<close>s that follow
  assign to these block variables (\<open>dataChunks'\<close>, \<open>manifestChunks'\<close> below). The named
  results, which the next iteration and the final \<^verbatim>\<open>return\<close> read, keep the values they
  had before the declaration.
\<close>

fun resolveLoop ::
  "nat \<Rightarrow> externals \<Rightarrow> lookupFn \<Rightarrow> int64 \<Rightarrow> int64 \<Rightarrow> FileChunk list \<Rightarrow> FileChunk list
   \<Rightarrow> FileChunk list \<Rightarrow> FileChunk list \<Rightarrow> world
   \<Rightarrow> ((FileChunk list \<times> FileChunk list \<times> error option) \<times> world) option"
where
  "resolveLoop depth ext lookupFileIdFn startOffset stopOffset chunks [] dataChunks manifestChunks w =
     Some ((dataChunks, manifestChunks, None), w)"
| "resolveLoop depth ext lookupFileIdFn startOffset stopOffset chunks (chunk # rest) dataChunks manifestChunks w =
     (if sint (max64 (Offset chunk) startOffset) \<ge> sint (min64 (Offset chunk + Size chunk) stopOffset) then
        resolveLoop depth ext lookupFileIdFn startOffset stopOffset chunks rest dataChunks manifestChunks w
      else if \<not> IsChunkManifest chunk then
        resolveLoop depth ext lookupFileIdFn startOffset stopOffset chunks rest (dataChunks @ [chunk]) manifestChunks w
      else
        (case ResolveOneChunkManifest ext w lookupFileIdFn chunk of
           None \<Rightarrow> None
         | Some (Inl err, w1) \<Rightarrow> Some ((chunks, [], Some err), w1)
         | Some (Inr resolvedChunks, w1) \<Rightarrow>
             (case depth of
                0 \<Rightarrow> None
              | Suc depth' \<Rightarrow>
                  (case resolveLoop depth' ext lookupFileIdFn startOffset stopOffset
                          resolvedChunks resolvedChunks [] [] w1 of
                     None \<Rightarrow> None
                   | Some ((dataChunks', manifestChunks', Some subErr), w2) \<Rightarrow>
                       Some ((chunks, [], Some subErr), w2)
                   | Some ((dataChunks', manifestChunks', None), w2) \<Rightarrow>
                       (let dataChunks'' = dataChunks' @ ext_subDataChunks ext;
                            manifestChunks'' = manifestChunks' @ ext_subManifestChunks ext
                        in resolveLoop depth ext lookupFileIdFn startOffset stopOffset chunks rest
                             dataChunks (manifestChunks @ [chunk]) w2)))))"

definition ResolveChunkManifest ::
  "nat \<Rightarrow> externals \<Rightarrow> world \<Rightarrow> lookupFn \<Rightarrow> FileChunk list \<Rightarrow> int64 \<Rightarrow> int64
   \<Rightarrow> ((FileChunk list \<times> FileChunk list \<times> error option) \<times> world) option"
where
  "ResolveChunkManifest depth ext w lookupFileIdFn chunks startOffset stopOffset =
     resolveLoop depth ext lookupFileIdFn startOffset stopOffset chunks chunks [] [] w"

section \<open>Manifest builder\<close>

definition ManifestBatch :: int where
  "ManifestBatch = 10000"

text \<open>
  A call either returns or panics (a nil dereference, a slice expression out of
  bounds).
\<close>

datatype 'a outcome = Panic | Return 'a

text \<open>
  The store function \<^verbatim>\<open>SaveDataAsChunkFunctionType\<close> is a collaborator with a state of its
  own (\<open>'s\<close>): from the state, the bytes read, the name and the offset it gives the
  chunk pointer (\<open>None\<close> for nil) and the error of the Go result, and its new state. The
  collection and replication strings of the result are dropped by the source and are
  left out.
\<close>

type_synonym 's saveFn =
  "'s \<Rightarrow> byte list \<Rightarrow> string \<Rightarrow> int64 \<Rightarrow> (FileChunk option \<times> error option) \<times> 's"

text \<open>
  A merge function returns the manifest chunk or the error, the chunks of the batch as
  it leaves them (they are pointers into the caller's slice, so what it changes in
  them the caller sees), and the state of the store.
\<close>

type_synonym 's mergeFn =
  "'s saveFn \<Rightarrow> 's \<Rightarrow> FileChunk list \<Rightarrow> ((error + FileChunk) \<times> FileChunk list \<times> 's) outcome"

definition MaxInt64 :: int64 where
  "MaxInt64 = 0x7FFFFFFFFFFFFFFF"

definition MinInt64 :: int64 where
  "MinInt64 = 0x8000000000000000"

text \<open>The body of the loop of \<^verbatim>\<open>mergeIntoManifest\<close> on \<open>(minOffset, maxOffset)\<close>.\<close>

fun offsetRange :: "int64 \<times> int64 \<Rightarrow> FileChunk \<Rightarrow> int64 \<times> int64" where
  "offsetRange (minOffset, maxOffset) chunk =
     (let minOffset' = (if sint minOffset > sint (Offset chunk) then Offset chunk else minOffset);
          maxOffset' = (if sint maxOffset < sint (Size chunk + Offset chunk)
                        then Size chunk + Offset chunk else maxOffset)
      in (minOffset', maxOffset'))"

text \<open>
  \<^verbatim>\<open>mergeIntoManifest\<close>. \<^verbatim>\<open>filer_pb.BeforeEntrySerialization\<close> and \<^verbatim>\<open>proto.Marshal\<close> are
  not in the source file and are parameters: the first is what it does to each chunk of
  the slice, in place; the second gives the bytes or an error.
\<close>

definition mergeIntoManifest ::
  "(FileChunk \<Rightarrow> FileChunk) \<Rightarrow> (FileChunk list \<Rightarrow> error + byte list) \<Rightarrow> 's mergeFn"
where
  "mergeIntoManifest BeforeEntrySerialization Marshal saveFunc st dataChunks0 =
     (let dataChunks = map BeforeEntrySerialization dataChunks0 in
      case Marshal dataChunks of
        Inl serErr \<Rightarrow> Return (Inl (SerializingManifest serErr), dataChunks, st)
      | Inr data \<Rightarrow>
          (let (minOffset, maxOffset) = foldl offsetRange (MaxInt64, MinInt64) dataChunks in
           case saveFunc st data [] 0 of
             ((_, Some err), st') \<Rightarrow> Return (Inl err, dataChunks, st')
           | ((None, None), st') \<Rightarrow> Panic
           | ((Some manifestChunk, None), st') \<Rightarrow>
               Return (Inr (manifestChunk\<lparr>IsChunkManifest := True, Offset := minOffset,
                                          Size := maxOffset - minOffset\<rparr>),
                       dataChunks, st')))"

text \<open>The first loop of \<^verbatim>\<open>doMaybeManifestize\<close>, on \<open>(dataChunks, chunks)\<close>.\<close>

fun splitLoop :: "FileChunk list \<Rightarrow> FileChunk list \<times> FileChunk list \<Rightarrow> FileChunk list \<times> FileChunk list" where
  "splitLoop [] (dataChunks, chunks) = (dataChunks, chunks)"
| "splitLoop (chunk # inputChunks) (dataChunks, chunks) =
     (if \<not> IsChunkManifest chunk then splitLoop inputChunks (dataChunks @ [chunk], chunks)
      else splitLoop inputChunks (dataChunks, chunks @ [chunk]))"

text \<open>
  The second loop, over the batches \<^verbatim>\<open>dataChunks[i:i+mergeFactor]\<close>, and the third, which
  appends the chunks from index \<^verbatim>\<open>len(dataChunks) - remaining\<close> on. The slice expression
  panics when its upper bound is below its lower bound; the third loop would panic on
  a negative index. With \<open>mergeFactor = 0\<close> the second loop need not end, so not
  returning is the value \<open>None\<close>.
\<close>

partial_function (option) mergeLoop ::
  "'s mergeFn \<Rightarrow> 's saveFn \<Rightarrow> int \<Rightarrow> 's \<Rightarrow> FileChunk list \<Rightarrow> FileChunk list \<Rightarrow> int \<Rightarrow> int
   \<Rightarrow> ((FileChunk list \<times> error option) \<times> 's) outcome option"
where
  "mergeLoop mergefn saveFunc mergeFactor st dataChunks chunks remaining i =
     (if i + mergeFactor \<le> int (length dataChunks) then
        (if i + mergeFactor < i then Some Panic
         else
           (case mergefn saveFunc st (take (nat mergeFactor) (drop (nat i) dataChunks)) of
              Panic \<Rightarrow> Some Panic
            | Return (Inl err, batch, st') \<Rightarrow>
                Some (Return ((take (nat i) dataChunks @ batch @ drop (nat (i + mergeFactor)) dataChunks,
                               Some err), st'))
            | Return (Inr chunk, batch, st') \<Rightarrow>
                mergeLoop mergefn saveFunc mergeFactor st'
                  (take (nat i) dataChunks @ batch @ drop (nat (i + mergeFactor)) dataChunks)
                  (chunks @ [chunk]) (remaining - mergeFactor) (i + mergeFactor)))
      else if int (length dataChunks) - remaining < 0 \<and> int (length dataChunks) - remaining < int (length dataChunks)
        then Some Panic
      else Some (Return ((chunks @ drop (nat (int (length dataChunks) - remaining)) dataChunks, None), st)))"

definition doMaybeManifestize ::
  "'s saveFn \<Rightarrow> 's \<Rightarrow> FileChunk list \<Rightarrow> int \<Rightarrow> 's mergeFn
   \<Rightarrow> ((FileChunk list \<times> error option) \<times> 's) outcome option"
where
  "doMaybeManifestize saveFunc st inputChunks mergeFactor mergefn =
     (let (dataChunks, chunks) = splitLoop inputChunks ([], []);
          remaining = int (length dataChunks)
      in mergeLoop mergefn saveFunc mergeFactor st dataChunks chunks remaining 0)"

definition MaybeManifestize ::
  "(FileChunk \<Rightarrow> FileChunk) \<Rightarrow> (FileChunk list \<Rightarrow> error + byte list) \<Rightarrow> 's saveFn \<Rightarrow> 's \<Rightarrow> FileChunk list
   \<Rightarrow> ((FileChunk list \<times> error option) \<times> 's) outcome option"
where
  "MaybeManifestize BeforeEntrySerialization Marshal saveFunc st inputChunks =
     doMaybeManifestize saveFunc st inputChunks ManifestBatch
       (mergeIntoManifest BeforeEntrySerialization Marshal)"

section \<open>Auxiliary notions for the statements\<close>

text \<open>The bytes that the \<open>i\<close>-th request of a log of requests was answered with.\<close>

definition delivered :: "transport \<Rightarrow> request list \<Rightarrow> nat \<Rightarrow> byte list" where
  "delivered tr cs i = concat (resp_data (tr (take i cs) (cs ! i)))"

text \<open>
  The invariant of a streaming session over a transport whose every answer is a prefix
  of \<open>content\<close>: the writer holds what it held at the start followed by the first
  \<open>totalWritten\<close> bytes of \<open>content\<close>, and \<open>totalWritten\<close> is the longest answer so far.
\<close>

definition dedupInv :: "transport \<Rightarrow> byte list \<Rightarrow> byte list \<Rightarrow> nat \<Rightarrow> stream_state \<Rightarrow> bool" where
  "dedupInv tr content writer k0 s \<longleftrightarrow>
     (\<exists>T. s_totalWritten s = int T \<and> T \<le> length content \<and> s_sink s = writer @ take T content \<and>
          (\<forall>i. k0 \<le> i \<and> i < length (calls (s_world s)) \<longrightarrow> length (delivered tr (calls (s_world s)) i) \<le> T) \<and>
          (T = 0 \<or> (\<exists>i. k0 \<le> i \<and> i < length (calls (s_world s)) \<and> T = length (delivered tr (calls (s_world s)) i))))"

text \<open>
  A transport for the session of the specification's example: the first attempt
  delivers bytes \<open>[0,60)\<close> of a chunk of 100 bytes and fails retryably, every later one
  delivers the chunk from byte zero and succeeds.
\<close>

definition dedupExampleContent :: "byte list" where
  "dedupExampleContent = map of_nat [0..<100]"

definition dedupExampleTransport :: transport where
  "dedupExampleTransport h rq =
     (if h = [] then
        \<lparr>resp_data = [take 60 dedupExampleContent], resp_shouldRetry = True,
         resp_err = Some (External ''connection reset'')\<rparr>
      else
        \<lparr>resp_data = [dedupExampleContent], resp_shouldRetry = False, resp_err = None\<rparr>)"


text \<open>
  The traversal that \<^verbatim>\<open>ResolveChunkManifest\<close> makes of a chunk list, as a relation: from a
  world it either runs through the list (\<open>None\<close>) or stops at the first manifest, at
  any depth, whose fetch or decode fails (\<open>Some err\<close>); the last argument is the world
  it leaves. Chunks that fail the range test and leaf chunks are passed over, a manifest
  that passes the test is decoded and its children are traversed before the rest.
\<close>

inductive traversal ::
  "externals \<Rightarrow> lookupFn \<Rightarrow> int64 \<Rightarrow> int64 \<Rightarrow> world \<Rightarrow> FileChunk list \<Rightarrow> error option \<Rightarrow> world \<Rightarrow> bool"
  for ext :: externals and lookupFileIdFn :: lookupFn and startOffset :: int64 and stopOffset :: int64
where
  finished: "traversal ext lookupFileIdFn startOffset stopOffset w [] None w"
| skipped:
    "sint (max64 (Offset chunk) startOffset) \<ge> sint (min64 (Offset chunk + Size chunk) stopOffset) \<Longrightarrow>
     traversal ext lookupFileIdFn startOffset stopOffset w rest r w' \<Longrightarrow>
     traversal ext lookupFileIdFn startOffset stopOffset w (chunk # rest) r w'"
| leaf:
    "sint (max64 (Offset chunk) startOffset) < sint (min64 (Offset chunk + Size chunk) stopOffset) \<Longrightarrow>
     \<not> IsChunkManifest chunk \<Longrightarrow>
     traversal ext lookupFileIdFn startOffset stopOffset w rest r w' \<Longrightarrow>
     traversal ext lookupFileIdFn startOffset stopOffset w (chunk # rest) r w'"
| decode_failed:
    "sint (max64 (Offset chunk) startOffset) < sint (min64 (Offset chunk + Size chunk) stopOffset) \<Longrightarrow>
     IsChunkManifest chunk \<Longrightarrow>
     ResolveOneChunkManifest ext w lookupFileIdFn chunk = Some (Inl err, w1) \<Longrightarrow>
     traversal ext lookupFileIdFn startOffset stopOffset w (chunk # rest) (Some err) w1"
| nested_failed:
    "sint (max64 (Offset chunk) startOffset) < sint (min64 (Offset chunk + Size chunk) stopOffset) \<Longrightarrow>
     IsChunkManifest chunk \<Longrightarrow>
     ResolveOneChunkManifest ext w lookupFileIdFn chunk = Some (Inr resolvedChunks, w1) \<Longrightarrow>
     traversal ext lookupFileIdFn startOffset stopOffset w1 resolvedChunks (Some err) w2 \<Longrightarrow>
     traversal ext lookupFileIdFn startOffset stopOffset w (chunk # rest) (Some err) w2"
| nested_done:
    "sint (max64 (Offset chunk) startOffset) < sint (min64 (Offset chunk + Size chunk) stopOffset) \<Longrightarrow>
     IsChunkManifest chunk \<Longrightarrow>
     ResolveOneChunkManifest ext w lookupFileIdFn chunk = Some (Inr resolvedChunks, w1) \<Longrightarrow>
     traversal ext lookupFileIdFn startOffset stopOffset w1 resolvedChunks None w2 \<Longrightarrow>
     traversal ext lookupFileIdFn startOffset stopOffset w2 rest r w3 \<Longrightarrow>
     traversal ext lookupFileIdFn startOffset stopOffset w (chunk # rest) r w3"

text \<open>The chunk of the specification's boundary example: it covers \<open>[100,150)\<close>.\<close>

definition boundaryChunk :: FileChunk where
  "boundaryChunk = \<lparr>FileId = ''3,01637037d6'', Offset = 100, Size = 50, CipherKey = [],
                    IsCompressed = False, IsChunkManifest = False\<rparr>"

text \<open>
  A small store for examples: a manifest \<open>outerManifest\<close> whose payload (the byte 1)
  decodes to the manifest \<open>innerManifest\<close> and the leaf \<open>outerLeaf\<close>; the payload of
  \<open>innerManifest\<close> (the byte 2) decodes to the leaf \<open>innerLeaf\<close>; any other payload is
  malformed. The transport answers a location by the payload of the file id in it. In
  \<open>brokenStore\<close> the payload of \<open>innerManifest\<close> is malformed.
\<close>

definition innerLeaf :: FileChunk where
  "innerLeaf = \<lparr>FileId = ''7,04'', Offset = 0, Size = 10, CipherKey = [],
                 IsCompressed = False, IsChunkManifest = False\<rparr>"

definition outerLeaf :: FileChunk where
  "outerLeaf = \<lparr>FileId = ''7,03'', Offset = 10, Size = 10, CipherKey = [],
                 IsCompressed = False, IsChunkManifest = False\<rparr>"

definition innerManifest :: FileChunk where
  "innerManifest = \<lparr>FileId = ''7,02'', Offset = 0, Size = 10, CipherKey = [],
                     IsCompressed = False, IsChunkManifest = True\<rparr>"

definition outerManifest :: FileChunk where
  "outerManifest = \<lparr>FileId = ''7,01'', Offset = 0, Size = 20, CipherKey = [],
                     IsCompressed = False, IsChunkManifest = True\<rparr>"

definition exampleLookup :: lookupFn where
  "exampleLookup fileId = Inr [''volume1/'' @ fileId]"

definition exampleTransport :: "byte \<Rightarrow> transport" where
  "exampleTransport innerPayload h rq =
     (if req_url rq = ''volume1/7,01?readDeleted=true'' then
        \<lparr>resp_data = [[1]], resp_shouldRetry = False, resp_err = None\<rparr>
      else if req_url rq = ''volume1/7,02?readDeleted=true'' then
        \<lparr>resp_data = [[innerPayload]], resp_shouldRetry = False, resp_err = None\<rparr>
      else
        \<lparr>resp_data = [], resp_shouldRetry = False, resp_err = Some (External ''not found'')\<rparr>)"

definition exampleUnmarshal :: "byte list \<Rightarrow> error + FileChunk list" where
  "exampleUnmarshal payload =
     (if payload = [1] then Inr [innerManifest, outerLeaf]
      else if payload = [2] then Inr [innerLeaf]
      else Inl (External ''malformed manifest''))"

definition exampleStore :: "FileChunk list \<Rightarrow> FileChunk list \<Rightarrow> externals" where
  "exampleStore sd sm =
     \<lparr>ext_ReadUrlAsStream = exampleTransport 2, ext_RetryWaitTime = 6000000000,
      ext_Unmarshal = exampleUnmarshal, ext_AfterEntryDeserialization = (\<lambda>chunks. chunks),
      ext_subDataChunks = sd, ext_subManifestChunks = sm\<rparr>"

definition brokenStore :: externals where
  "brokenStore =
     \<lparr>ext_ReadUrlAsStream = exampleTransport 3, ext_RetryWaitTime = 6000000000,
      ext_Unmarshal = exampleUnmarshal, ext_AfterEntryDeserialization = (\<lambda>chunks. chunks),
      ext_subDataChunks = [], ext_subManifestChunks = []\<rparr>"

definition emptyWorld :: world where
  "emptyWorld = \<lparr>calls = [], sleeps = []\<rparr>"

text \<open>
  With a stack of depth \<open>n\<close> or more, the loop of \<^verbatim>\<open>ResolveChunkManifest\<close> over \<open>rest\<close>
  ends as the traversal does: with the error and the fallback, or without error.
\<close>

definition resolvesTo ::
  "externals \<Rightarrow> lookupFn \<Rightarrow> int64 \<Rightarrow> int64 \<Rightarrow> world \<Rightarrow> FileChunk list \<Rightarrow> error option \<Rightarrow> world \<Rightarrow> nat \<Rightarrow> bool"
where
  "resolvesTo ext lk s e w rest r w' n \<longleftrightarrow>
     (\<forall>d \<ge> n. \<forall>chunks dcs mcs.
        (\<forall>err. r = Some err \<longrightarrow>
           resolveLoop d ext lk s e chunks rest dcs mcs w = Some ((chunks, [], Some err), w')) \<and>
        (r = None \<longrightarrow>
           (\<exists>dd mm. resolveLoop d ext lk s e chunks rest dcs mcs w = Some ((dd, mm, None), w'))))"


text \<open>The answer that the \<open>i\<close>-th request of a log of requests received.\<close>

definition answered :: "transport \<Rightarrow> request list \<Rightarrow> nat \<Rightarrow> response" where
  "answered tr cs i = tr (take i cs) (cs ! i)"

text \<open>
  The value of \<^verbatim>\<open>waitTime\<close> in the \<open>k\<close>-th round of the retry loops: \<^verbatim>\<open>time.Second\<close>
  at first, then what the loop header makes of it.
\<close>

fun waitOfRound :: "nat \<Rightarrow> int" where
  "waitOfRound 0 = Second"
| "waitOfRound (Suc k) = nextWait (waitOfRound k)"

text \<open>
  The invariant of a session of either retry loop, on the log of its requests from
  index \<open>k0\<close> on: every answer but the last was a retryable failure, and the loop's
  \<open>shouldRetry\<close> and \<open>err\<close> are those of the last answer.
\<close>

definition terminalInv :: "transport \<Rightarrow> nat \<Rightarrow> request list \<Rightarrow> bool \<Rightarrow> error option \<Rightarrow> bool" where
  "terminalInv tr k0 cs shouldRetry err \<longleftrightarrow>
     k0 \<le> length cs \<and>
     (\<forall>i. k0 \<le> i \<and> Suc i < length cs \<longrightarrow>
        resp_shouldRetry (answered tr cs i) \<and> resp_err (answered tr cs i) \<noteq> None) \<and>
     (k0 < length cs \<longrightarrow>
        shouldRetry = resp_shouldRetry (answered tr cs (length cs - 1)) \<and>
        err = resp_err (answered tr cs (length cs - 1)))"

text \<open>A transport whose every attempt fails retryably without delivering anything.\<close>

definition alwaysFailingTransport :: transport where
  "alwaysFailingTransport h rq =
     \<lparr>resp_data = [], resp_shouldRetry = True, resp_err = Some (External ''connection refused'')\<rparr>"

text \<open>
  A transport for a range fetch with a failed first attempt: it delivers three bytes
  and fails retryably, every later attempt delivers one byte and succeeds.
\<close>

definition staleTransport :: transport where
  "staleTransport h rq =
     (if h = [] then
        \<lparr>resp_data = [[1, 2, 3]], resp_shouldRetry = True,
         resp_err = Some (External ''connection reset'')\<rparr>
      else
        \<lparr>resp_data = [[9]], resp_shouldRetry = False, resp_err = None\<rparr>)"

text \<open>
  The invariant of a session of the range fetch that started with the buffer
  \<open>buffer0\<close> and \<open>k0\<close> requests in the log: the buffer keeps its length; before the
  first attempt the count is zero and the buffer untouched; after an attempt the count
  and the first \<open>n\<close> bytes of the buffer are those of the last attempt's delivery.
\<close>

definition rangeInv :: "transport \<Rightarrow> byte list \<Rightarrow> nat \<Rightarrow> range_state \<Rightarrow> bool" where
  "rangeInv tr buffer0 k0 s \<longleftrightarrow>
     length (r_buffer s) = length buffer0 \<and> k0 \<le> length (calls (r_world s)) \<and>
     (length (calls (r_world s)) = k0 \<longrightarrow> r_n s = 0 \<and> r_buffer s = buffer0) \<and>
     (length (calls (r_world s)) \<noteq> k0 \<longrightarrow>
        r_n s = int (min (length buffer0) (length (delivered tr (calls (r_world s)) (length (calls (r_world s)) - 1)))) \<and>
        take (nat (r_n s)) (r_buffer s) = take (nat (r_n s)) (delivered tr (calls (r_world s)) (length (calls (r_world s)) - 1)))"


text \<open>
  The \<open>j\<close>-th consecutive batch of \<open>mf\<close> elements of a list, and the list of leaf
  chunks after the first \<open>j\<close> batches went through a merge: their chunks are as
  \<^verbatim>\<open>BeforeEntrySerialization\<close> left them, the rest is untouched.
\<close>

definition batchAt :: "nat \<Rightarrow> 'a list \<Rightarrow> nat \<Rightarrow> 'a list" where
  "batchAt mf xs j = take mf (drop (j * mf) xs)"

definition afterBatches :: "(FileChunk \<Rightarrow> FileChunk) \<Rightarrow> nat \<Rightarrow> FileChunk list \<Rightarrow> nat \<Rightarrow> FileChunk list" where
  "afterBatches BeforeEntrySerialization mf leaves j =
     map BeforeEntrySerialization (take (j * mf) leaves) @ drop (j * mf) leaves"

text \<open>
  A store for examples: it counts its calls and returns a descriptor whose offset and
  size are those of the stored blob (offset 0, size the number of bytes); a
  serialisation of three bytes whatever the chunks; and one that fails.
\<close>

definition exampleSave :: "nat saveFn" where
  "exampleSave st data name offset =
     ((Some \<lparr>FileId = ''9,0a'', Offset = 0, Size = of_nat (length data), CipherKey = [],
              IsCompressed = False, IsChunkManifest = False\<rparr>, None), Suc st)"

definition exampleMarshal :: "FileChunk list \<Rightarrow> error + byte list" where
  "exampleMarshal chunks = Inr [1, 2, 3]"


text \<open>
  A leaf chunk at offset 0 whose size is \<open>2 ^ 63\<close>: its end is beyond the largest
  \<^verbatim>\<open>int64\<close>.
\<close>

definition overflowChunk :: FileChunk where
  "overflowChunk = \<lparr>FileId = ''3,02a1'', Offset = 0, Size = 0x8000000000000000, CipherKey = [],
                     IsCompressed = False, IsChunkManifest = False\<rparr>"

text \<open>
  The manifest chunk that the example store and serialisation give for a batch whose
  chunks cover \<open>[0,10)\<close>.
\<close>

definition exampleManifest :: FileChunk where
  "exampleManifest = \<lparr>FileId = ''9,0a'', Offset = 0, Size = 10, CipherKey = [],
                        IsCompressed = False, IsChunkManifest = True\<rparr>"


section \<open>The streaming fetch writes each byte once\<close>

lemma streamOnData_step:
  assumes pre: "take (length pre + length data) content = pre @ data"
    and T: "int (length pre) \<le> T" "T \<le> int (length content)"
  shows "streamOnData (base @ take (nat T) content, T, int (length pre)) data =
           (base @ take (nat (max T (int (length pre + length data)))) content,
            max T (int (length pre + length data)), int (length pre + length data))"
proof (cases "int (length pre + length data) \<le> T")
  case True
  show ?thesis
  proof (cases "int (length pre) < T")
    case lt: True
    then show ?thesis using True by (simp add: Let_def max_def)
  next
    case False
    then have "data = []" using True T by simp
    then show ?thesis using False True by (simp add: max_def)
  qed
next
  case False
  then have lt: "T < int (length pre + length data)" by simp
  have len: "length pre + length data \<le> length content"
  proof (rule ccontr)
    assume "\<not> ?thesis"
    then have "length (take (length pre + length data) content) < length pre + length data" by simp
    then show False using pre by simp
  qed
  have tk: "take (nat T) content = pre @ take (nat T - length pre) data"
  proof -
    have "nat T \<le> length pre + length data" using lt by linarith
    then have "take (nat T) content = take (nat T) (take (length pre + length data) content)"
      by (simp add: min_absorb1)
    also have "\<dots> = take (nat T) (pre @ data)" using pre by simp
    also have "\<dots> = pre @ take (nat T - length pre) data" using T by simp
    finally show ?thesis .
  qed
  have dr: "nat (T - int (length pre)) = nat T - length pre" using T by simp
  have "take (nat T) content @ drop (nat T - length pre) data = pre @ data"
    by (simp add: tk)
  then have app: "base @ take (nat T) content @ drop (nat T - length pre) data = base @ take (length pre + length data) content"
    using pre by simp
  show ?thesis using lt T app
    by (auto simp: Let_def max_def dr nat_add_distrib)
qed

lemma streamOnData_foldl:
  assumes "take (length pre + length (concat ds)) content = pre @ concat ds"
    and "int (length pre) \<le> T" "T \<le> int (length content)"
  shows "foldl streamOnData (base @ take (nat T) content, T, int (length pre)) ds =
           (base @ take (nat (max T (int (length pre + length (concat ds))))) content,
            max T (int (length pre + length (concat ds))), int (length pre + length (concat ds)))"
  using assms
proof (induction ds arbitrary: pre T)
  case Nil
  then show ?case by (simp add: max_def)
next
  case (Cons d ds)
  have whole: "take (length pre + length d + length (concat ds)) content = pre @ d @ concat ds"
    using Cons.prems(1) by (simp add: add.assoc)
  have "take (length pre + length d) (take (length pre + length d + length (concat ds)) content)
          = take (length pre + length d) (pre @ d @ concat ds)"
    by (simp only: whole)
  then have pd: "take (length pre + length d) content = pre @ d"
    by (simp add: min_absorb1)
  have le: "length pre + length d \<le> length content"
  proof (rule ccontr)
    assume "\<not> ?thesis"
    then have "length (take (length pre + length d) content) < length pre + length d" by simp
    then show False using pd by simp
  qed
  let ?T1 = "max T (int (length pre + length d))"
  have step: "streamOnData (base @ take (nat T) content, T, int (length pre)) d =
      (base @ take (nat ?T1) content, ?T1, int (length (pre @ d)))"
    using streamOnData_step[OF pd Cons.prems(2,3)] by simp
  have IH: "foldl streamOnData (base @ take (nat ?T1) content, ?T1, int (length (pre @ d))) ds =
      (base @ take (nat (max ?T1 (int (length (pre @ d) + length (concat ds))))) content,
       max ?T1 (int (length (pre @ d) + length (concat ds))), int (length (pre @ d) + length (concat ds)))"
  proof (rule Cons.IH)
    show "take (length (pre @ d) + length (concat ds)) content = (pre @ d) @ concat ds"
      using whole by simp
    show "int (length (pre @ d)) \<le> ?T1" by simp
    show "?T1 \<le> int (length content)" using le Cons.prems(3) by simp
  qed
  have mx: "max ?T1 (int (length (pre @ d) + length (concat ds))) = max T (int (length pre + length (concat (d # ds))))"
    by (simp add: max_def)
  show ?case
    unfolding foldl_Cons step IH mx by (simp add: add.assoc)
qed

lemma streamRound_invariant:
  assumes "I s"
    and "\<And>s u. I s \<Longrightarrow> I (streamAttempt tr (streamRequest u ck gz fc off sz) s)"
  shows "I (streamRound tr ck gz fc off sz urls s)"
  using assms(1)
proof (induction urls arbitrary: s)
  case Nil
  then show ?case by simp
next
  case (Cons u urls)
  then show ?case using assms(2) by (simp add: Let_def)
qed

lemma streamRounds_invariant:
  assumes run: "streamRounds tr c ck gz fc off sz urls w s = Some s'"
    and init: "I s"
    and attempt: "\<And>s u. I s \<Longrightarrow> I (streamAttempt tr (streamRequest u ck gz fc off sz) s)"
    and sleep: "\<And>s w. I s \<Longrightarrow> I (streamSleep w s)"
  shows "I s'"
proof -
  let ?P = "\<lambda>tr' (c'::int) ck' gz' fc' off' sz' urls' (w'::int) s0 s1.
      (tr' = tr \<and> ck' = ck \<and> gz' = gz \<and> fc' = fc \<and> off' = off \<and> sz' = sz \<and> urls' = urls) \<longrightarrow> I s0 \<longrightarrow> I s1"
  have "?P tr c ck gz fc off sz urls w s s'"
  proof (rule streamRounds.raw_induct[where P = ?P, OF _ run], intro impI)
    fix rounds tr' c' ck' gz' fc' off' sz' urls' w' s0 s1
    assume IH: "\<And>tr' c' ck' gz' fc' off' sz' urls' w' s0 s1.
        rounds tr' c' ck' gz' fc' off' sz' urls' w' s0 = Some s1 \<Longrightarrow> ?P tr' c' ck' gz' fc' off' sz' urls' w' s0 s1"
      and body: "(if w' < c' then
          let s' = streamRound tr' ck' gz' fc' off' sz' urls' s0
          in if s_err s' \<noteq> None \<and> s_shouldRetry s'
             then rounds tr' c' ck' gz' fc' off' sz' urls' (nextWait w') (streamSleep w' s')
             else Some s'
        else Some s0) = Some s1"
      and eq: "tr' = tr \<and> ck' = ck \<and> gz' = gz \<and> fc' = fc \<and> off' = off \<and> sz' = sz \<and> urls' = urls"
      and I0: "I s0"
    have I1: "I (streamRound tr ck gz fc off sz urls s0)"
      using I0 attempt by (rule streamRound_invariant)
    show "I s1"
    proof (cases "w' < c'")
      case False
      then show ?thesis using body I0 by simp
    next
      case True
      show ?thesis
      proof (cases "s_err (streamRound tr ck gz fc off sz urls s0) \<noteq> None \<and> s_shouldRetry (streamRound tr ck gz fc off sz urls s0)")
        case False
        then show ?thesis using body True I1 eq by (auto simp: Let_def)
      next
        case again: True
        then have "rounds tr c' ck gz fc off sz urls (nextWait w') (streamSleep w' (streamRound tr ck gz fc off sz urls s0)) = Some s1"
          using body True eq by (auto simp: Let_def)
        from IH[OF this] sleep[OF I1] show ?thesis by simp
      qed
    qed
  qed
  with init show ?thesis by simp
qed

lemma delivered_append_old: "i < length cs \<Longrightarrow> delivered tr (cs @ [rq]) i = delivered tr cs i"
  by (simp add: delivered_def nth_append)

lemma delivered_append_new: "delivered tr (cs @ [rq]) (length cs) = concat (resp_data (tr cs rq))"
  by (simp add: delivered_def)

lemma streamAttempt_dedup:
  assumes redeliver: "\<forall>h rq. prefix (concat (resp_data (tr h rq))) content"
    and I: "dedupInv tr content writer k0 s"
    and k0: "k0 \<le> length (calls (s_world s))"
  shows "dedupInv tr content writer k0 (streamAttempt tr rq s)"
proof -
  from I obtain T where T: "s_totalWritten s = int T" "T \<le> length content"
      "s_sink s = writer @ take T content"
      "\<forall>i. k0 \<le> i \<and> i < length (calls (s_world s)) \<longrightarrow> length (delivered tr (calls (s_world s)) i) \<le> T"
      "T = 0 \<or> (\<exists>i. k0 \<le> i \<and> i < length (calls (s_world s)) \<and> T = length (delivered tr (calls (s_world s)) i))"
    unfolding dedupInv_def by blast
  let ?cs = "calls (s_world s)"
  let ?d = "concat (resp_data (tr ?cs rq))"
  have "prefix ?d content" using redeliver by blast
  then have tk: "take (length ?d) content = ?d" and dl: "length ?d \<le> length content"
    by (auto simp: prefix_def)
  have fold: "foldl streamOnData (s_sink s, s_totalWritten s, 0) (resp_data (tr ?cs rq)) =
      (writer @ take (max T (length ?d)) content, int (max T (length ?d)), int (length ?d))"
    using streamOnData_foldl[where pre = "[]" and T = "int T" and content = content
        and ds = "resp_data (tr ?cs rq)" and base = writer] tk T(1,2,3)
    by (simp add: max_def)
  let ?s' = "streamAttempt tr rq s"
  have s': "s_totalWritten ?s' = int (max T (length ?d))"
       "s_sink ?s' = writer @ take (max T (length ?d)) content"
       "calls (s_world ?s') = ?cs @ [rq]"
    by (simp_all add: streamAttempt_def Let_def fold)
  show ?thesis
    unfolding dedupInv_def
  proof (intro exI[of _ "max T (length ?d)"] conjI)
    show "s_totalWritten ?s' = int (max T (length ?d))" by (rule s')
    show "max T (length ?d) \<le> length content" using T(2) dl by simp
    show "s_sink ?s' = writer @ take (max T (length ?d)) content" by (rule s')
    show "\<forall>i. k0 \<le> i \<and> i < length (calls (s_world ?s')) \<longrightarrow>
            length (delivered tr (calls (s_world ?s')) i) \<le> max T (length ?d)"
    proof (intro allI impI)
      fix i assume i: "k0 \<le> i \<and> i < length (calls (s_world ?s'))"
      show "length (delivered tr (calls (s_world ?s')) i) \<le> max T (length ?d)"
      proof (cases "i < length ?cs")
        case True
        then show ?thesis using T(4) i by (simp add: s' delivered_append_old le_max_iff_disj)
      next
        case False
        then have "i = length ?cs" using i by (simp add: s')
        then show ?thesis by (simp add: s' delivered_append_new)
      qed
    qed
    show "max T (length ?d) = 0 \<or>
          (\<exists>i. k0 \<le> i \<and> i < length (calls (s_world ?s')) \<and>
               max T (length ?d) = length (delivered tr (calls (s_world ?s')) i))"
    proof (cases "T \<le> length ?d")
      case True
      then have "max T (length ?d) = length (delivered tr (calls (s_world ?s')) (length ?cs))"
        by (simp add: s' delivered_append_new max_def)
      then show ?thesis using k0 by (auto simp: s')
    next
      case False
      then have m: "max T (length ?d) = T" and "T \<noteq> 0" by (simp_all add: max_def)
      with T(5) obtain i where "k0 \<le> i" "i < length ?cs" "length (delivered tr ?cs i) = T" by auto
      then have "k0 \<le> i \<and> i < length (calls (s_world ?s')) \<and>
               max T (length ?d) = length (delivered tr (calls (s_world ?s')) i)"
        by (simp add: s' m delivered_append_old)
      then show ?thesis by blast
    qed
  qed
qed

lemma streamSleep_dedup:
  "dedupInv tr content writer k0 s \<Longrightarrow> dedupInv tr content writer k0 (streamSleep w s)"
  by (simp add: dedupInv_def streamSleep_def)

text \<open>
  C2. In a session of \<^verbatim>\<open>retriedStreamFetchChunkData\<close> over a transport whose every
  attempt delivers the chunk's content again from byte zero (a prefix of \<open>content\<close>),
  a delivery that arrives while \<open>totalWritten\<close> exceeds the attempt's processed count
  loses its first \<open>totalWritten - localProcesed\<close> bytes, the rest is written and counted
  into both counters; and when the session returns, the writer holds what it held
  before followed by the first \<open>T\<close> bytes of the content, each once, where \<open>T\<close> is
  the length of the longest delivery among the session's attempts.
\<close>

theorem stream_dedup_exactly_once:
  assumes redeliver: "\<forall>h rq. prefix (concat (resp_data (tr h rq))) content"
    and run: "retriedStreamFetchChunkData tr RetryWaitTime w writer urlStrings cipherKey isGzipped isFullChunk offset size' = Some (err, sink', w')"
  shows "(\<forall>sink totalWritten localProcesed data. totalWritten > localProcesed \<longrightarrow>
            streamOnData (sink, totalWritten, localProcesed) data =
              (sink @ drop (nat (totalWritten - localProcesed)) data,
               totalWritten + int (length (drop (nat (totalWritten - localProcesed)) data)),
               localProcesed + int (length data))) \<and>
         (\<exists>T \<le> length content.
            sink' = writer @ take T content \<and>
            (\<forall>i. length (calls w) \<le> i \<and> i < length (calls w') \<longrightarrow> length (delivered tr (calls w') i) \<le> T) \<and>
            (T = 0 \<or> (\<exists>i. length (calls w) \<le> i \<and> i < length (calls w') \<and> T = length (delivered tr (calls w') i))))"
proof (intro conjI allI impI)
  fix sink :: "byte list" and totalWritten localProcesed :: int and data :: "byte list"
  assume "totalWritten > localProcesed"
  then show "streamOnData (sink, totalWritten, localProcesed) data =
              (sink @ drop (nat (totalWritten - localProcesed)) data,
               totalWritten + int (length (drop (nat (totalWritten - localProcesed)) data)),
               localProcesed + int (length data))"
    by (auto simp: Let_def)
next
  let ?k0 = "length (calls w)"
  let ?I = "\<lambda>s. dedupInv tr content writer ?k0 s \<and> ?k0 \<le> length (calls (s_world s))"
  let ?s0 = "\<lparr>s_world = w, s_sink = writer, s_totalWritten = 0, s_shouldRetry = False, s_err = None\<rparr>"
  from run obtain s where rounds: "streamRounds tr RetryWaitTime cipherKey isGzipped isFullChunk offset size' urlStrings Second ?s0 = Some s"
    and res: "sink' = s_sink s" "w' = s_world s"
    by (auto simp: retriedStreamFetchChunkData_def split: option.splits)
  have "?I s"
  proof (rule streamRounds_invariant[where I = ?I, OF rounds])
    show "?I ?s0" by (simp add: dedupInv_def)
  next
    fix s u assume "?I s"
    then show "?I (streamAttempt tr (streamRequest u cipherKey isGzipped isFullChunk offset size') s)"
      using streamAttempt_dedup[OF redeliver] by (simp add: streamAttempt_def Let_def split: prod.splits)
  next
    fix s w assume "?I s"
    then show "?I (streamSleep w s)" using streamSleep_dedup by (simp add: streamSleep_def)
  qed
  then show "\<exists>T \<le> length content.
            sink' = writer @ take T content \<and>
            (\<forall>i. length (calls w) \<le> i \<and> i < length (calls w') \<longrightarrow> length (delivered tr (calls w') i) \<le> T) \<and>
            (T = 0 \<or> (\<exists>i. length (calls w) \<le> i \<and> i < length (calls w') \<and> T = length (delivered tr (calls w') i)))"
    unfolding dedupInv_def res by blast
qed

lemma dedupExampleContent_length: "length dedupExampleContent = 100"
  by (simp add: dedupExampleContent_def)

lemma dedupExample_run: "retriedStreamFetchChunkData dedupExampleTransport 6000000000 \<lparr>calls = [], sleeps = []\<rparr> [] [''a'', ''b''] [] False True 0 0
   = Some (None, dedupExampleContent, \<lparr>calls = [streamRequest ''a'' [] False True 0 0, streamRequest ''b'' [] False True 0 0], sleeps = []\<rparr>)"
  by (simp add: retriedStreamFetchChunkData_def streamRounds.simps Second_def Let_def streamAttempt_def
      dedupExampleTransport_def dedupExampleContent_length)

lemma dedupExample_prefix: "\<forall>h rq. prefix (concat (resp_data (dedupExampleTransport h rq))) dedupExampleContent"
  by (simp add: dedupExampleTransport_def take_is_prefix)

text \<open>
  The example of the specification: bytes \<open>[0,60)\<close>, a retryable failure, then bytes
  \<open>[0,100)\<close> from scratch leave exactly the 100 bytes in the writer.
\<close>

theorem stream_dedup_exactly_once_witness:
  "(\<forall>h rq. prefix (concat (resp_data (dedupExampleTransport h rq))) dedupExampleContent) \<and>
   retriedStreamFetchChunkData dedupExampleTransport 6000000000 \<lparr>calls = [], sleeps = []\<rparr> []
       [''a'', ''b''] [] False True 0 0
     = Some (None, dedupExampleContent,
         \<lparr>calls = [streamRequest ''a'' [] False True 0 0, streamRequest ''b'' [] False True 0 0], sleeps = []\<rparr>) \<and>
   (\<exists>T \<le> length dedupExampleContent.
      dedupExampleContent = [] @ take T dedupExampleContent \<and>
      (\<forall>i. 0 \<le> i \<and> i < 2 \<longrightarrow>
         length (delivered dedupExampleTransport
           [streamRequest ''a'' [] False True 0 0, streamRequest ''b'' [] False True 0 0] i) \<le> T) \<and>
      (T = 0 \<or> (\<exists>i. 0 \<le> i \<and> i < 2 \<and>
         T = length (delivered dedupExampleTransport
           [streamRequest ''a'' [] False True 0 0, streamRequest ''b'' [] False True 0 0] i))))"
proof (intro conjI)
  show "\<forall>h rq. prefix (concat (resp_data (dedupExampleTransport h rq))) dedupExampleContent"
    by (rule dedupExample_prefix)
  show "retriedStreamFetchChunkData dedupExampleTransport 6000000000 \<lparr>calls = [], sleeps = []\<rparr> []
       [''a'', ''b''] [] False True 0 0
     = Some (None, dedupExampleContent,
         \<lparr>calls = [streamRequest ''a'' [] False True 0 0, streamRequest ''b'' [] False True 0 0], sleeps = []\<rparr>)"
    by (rule dedupExample_run)
  from stream_dedup_exactly_once[OF dedupExample_prefix dedupExample_run, THEN conjunct2]
  show "\<exists>T \<le> length dedupExampleContent.
      dedupExampleContent = [] @ take T dedupExampleContent \<and>
      (\<forall>i. 0 \<le> i \<and> i < 2 \<longrightarrow>
         length (delivered dedupExampleTransport
           [streamRequest ''a'' [] False True 0 0, streamRequest ''b'' [] False True 0 0] i) \<le> T) \<and>
      (T = 0 \<or> (\<exists>i. 0 \<le> i \<and> i < 2 \<and>
         T = length (delivered dedupExampleTransport
           [streamRequest ''a'' [] False True 0 0, streamRequest ''b'' [] False True 0 0] i)))"
    by (simp add: numeral_2_eq_2)
qed


section \<open>Resolving a list of leaf chunks\<close>

lemma resolveLoop_leaves:
  assumes "\<forall>c \<in> set rest. \<not> IsChunkManifest c"
  shows "resolveLoop depth ext lookupFileIdFn startOffset stopOffset chunks rest dataChunks manifestChunks w =
           Some ((dataChunks @
                   filter (\<lambda>c. sint (max64 (Offset c) startOffset) < sint (min64 (Offset c + Size c) stopOffset)) rest,
                  manifestChunks, None), w)"
  using assms
proof (induction rest arbitrary: dataChunks)
  case Nil
  then show ?case by simp
next
  case (Cons c rest)
  then show ?case by simp
qed

text \<open>
  The sum \<open>chunk.offset + chunk.size\<close> of the test is Go's \<^verbatim>\<open>int64\<close> addition. Where
  it does not overflow, the test is the one on the integers.
\<close>

lemma sint_add_uint_no_overflow:
  fixes a b :: "64 word"
  assumes "sint a + uint b < 2 ^ 63"
  shows "sint (a + b) = sint a + uint b"
proof -
  have lo: "- (2 ^ 63) \<le> sint a + uint b"
  proof -
    have "- (2 ^ 63) \<le> sint a" using sint_ge[of a] by simp
    moreover have "0 \<le> uint b" by simp
    ultimately show ?thesis by linarith
  qed
  have "a + b = word_of_int (sint a + uint b)" by simp
  then have "sint (a + b) = signed_take_bit 63 (sint a + uint b)"
    by (simp only: sint_sbintrunc') simp
  also have "\<dots> = sint a + uint b"
    using lo assms by (simp add: signed_take_bit_int_eq_self)
  finally show ?thesis .
qed

lemma range_test_no_overflow:
  assumes "sint (Offset c) + uint (Size c) < 2 ^ 63"
  shows "sint (max64 (Offset c) startOffset) < sint (min64 (Offset c + Size c) stopOffset) \<longleftrightarrow>
         max (sint (Offset c)) (sint startOffset) < min (sint (Offset c) + uint (Size c)) (sint stopOffset)"
  using sint_add_uint_no_overflow[OF assms]
  by (simp add: max64_def min64_def max_def min_def)

text \<open>
  C3, as the source has it. On a chunk list with no manifest chunk,
  \<^verbatim>\<open>ResolveChunkManifest\<close> returns the chunks that pass the test
  \<open>max(chunk.offset, startOffset) < min(chunk.offset+chunk.size, stopOffset)\<close> with the sum
  taken in \<^verbatim>\<open>int64\<close> arithmetic, as the source computes it, in input order, with no
  traversed manifest and no error, whatever the stack depth and without touching the
  world. Where no chunk of the list has its end \<open>offset + size\<close> beyond the largest
  \<^verbatim>\<open>int64\<close>, these are the chunks whose byte range \<open>[offset, offset+size)\<close> meets the
  range \<open>[startOffset, stopOffset)\<close>, the test being on the integers. The chunk
  covering \<open>[100,150)\<close> is left out by the ranges \<open>[0,100)\<close> and \<open>[150,200)\<close> and
  kept by \<open>[99,101)\<close>.
\<close>

theorem resolve_leaves_range_filter:
  assumes "\<forall>c \<in> set chunks. \<not> IsChunkManifest c"
  shows "ResolveChunkManifest depth ext w lookupFileIdFn chunks startOffset stopOffset =
           Some ((filter (\<lambda>c. sint (max64 (Offset c) startOffset) < sint (min64 (Offset c + Size c) stopOffset)) chunks,
                  [], None), w)
         \<and> ((\<forall>c \<in> set chunks. sint (Offset c) + uint (Size c) < 2 ^ 63) \<longrightarrow>
              ResolveChunkManifest depth ext w lookupFileIdFn chunks startOffset stopOffset =
                Some ((filter (\<lambda>c. max (sint (Offset c)) (sint startOffset)
                                    < min (sint (Offset c) + uint (Size c)) (sint stopOffset)) chunks,
                       [], None), w))
         \<and> ResolveChunkManifest depth ext w lookupFileIdFn [boundaryChunk] 0 100 = Some (([], [], None), w)
         \<and> ResolveChunkManifest depth ext w lookupFileIdFn [boundaryChunk] 99 101 = Some (([boundaryChunk], [], None), w)
         \<and> ResolveChunkManifest depth ext w lookupFileIdFn [boundaryChunk] 150 200 = Some (([], [], None), w)"
proof (intro conjI impI)
  show code: "ResolveChunkManifest depth ext w lookupFileIdFn chunks startOffset stopOffset =
           Some ((filter (\<lambda>c. sint (max64 (Offset c) startOffset) < sint (min64 (Offset c + Size c) stopOffset)) chunks,
                  [], None), w)"
    using resolveLoop_leaves[OF assms, of depth ext lookupFileIdFn startOffset stopOffset chunks "[]" "[]" w]
    by (simp add: ResolveChunkManifest_def)
  show "ResolveChunkManifest depth ext w lookupFileIdFn chunks startOffset stopOffset =
          Some ((filter (\<lambda>c. max (sint (Offset c)) (sint startOffset)
                              < min (sint (Offset c) + uint (Size c)) (sint stopOffset)) chunks,
                 [], None), w)"
    if no: "\<forall>c \<in> set chunks. sint (Offset c) + uint (Size c) < 2 ^ 63"
  proof -
    have "filter (\<lambda>c. sint (max64 (Offset c) startOffset) < sint (min64 (Offset c + Size c) stopOffset)) chunks =
          filter (\<lambda>c. max (sint (Offset c)) (sint startOffset)
                              < min (sint (Offset c) + uint (Size c)) (sint stopOffset)) chunks"
      using no by (intro filter_cong refl) (simp add: range_test_no_overflow)
    then show ?thesis using code by simp
  qed
  show "ResolveChunkManifest depth ext w lookupFileIdFn [boundaryChunk] 0 100 = Some (([], [], None), w)"
    by (simp add: ResolveChunkManifest_def boundaryChunk_def max64_def min64_def)
  show "ResolveChunkManifest depth ext w lookupFileIdFn [boundaryChunk] 99 101 = Some (([boundaryChunk], [], None), w)"
    by (simp add: ResolveChunkManifest_def boundaryChunk_def max64_def min64_def)
  show "ResolveChunkManifest depth ext w lookupFileIdFn [boundaryChunk] 150 200 = Some (([], [], None), w)"
    by (simp add: ResolveChunkManifest_def boundaryChunk_def max64_def min64_def)
qed

text \<open>
  Three leaf chunks, none with an end beyond the largest \<^verbatim>\<open>int64\<close>, over \<open>[15,120)\<close>:
  the first is left out.
\<close>

theorem resolve_leaves_range_filter_witness:
  "\<not> IsChunkManifest innerLeaf \<and> \<not> IsChunkManifest outerLeaf \<and> \<not> IsChunkManifest boundaryChunk \<and>
   sint (Offset innerLeaf) + uint (Size innerLeaf) < 2 ^ 63 \<and>
   sint (Offset outerLeaf) + uint (Size outerLeaf) < 2 ^ 63 \<and>
   sint (Offset boundaryChunk) + uint (Size boundaryChunk) < 2 ^ 63 \<and>
   \<not> max (sint (Offset innerLeaf)) (sint (15 :: int64)) < min (sint (Offset innerLeaf) + uint (Size innerLeaf)) (sint (120 :: int64)) \<and>
   max (sint (Offset outerLeaf)) (sint (15 :: int64)) < min (sint (Offset outerLeaf) + uint (Size outerLeaf)) (sint (120 :: int64)) \<and>
   max (sint (Offset boundaryChunk)) (sint (15 :: int64)) < min (sint (Offset boundaryChunk) + uint (Size boundaryChunk)) (sint (120 :: int64)) \<and>
   ResolveChunkManifest 0 brokenStore emptyWorld exampleLookup [innerLeaf, outerLeaf, boundaryChunk] 15 120 =
     Some (([outerLeaf, boundaryChunk], [], None), emptyWorld)"
  using resolve_leaves_range_filter[of "[innerLeaf, outerLeaf, boundaryChunk]" 0 brokenStore emptyWorld exampleLookup 15 120]
  by (simp add: innerLeaf_def outerLeaf_def boundaryChunk_def max64_def min64_def)

text \<open>
  C3 as stated fails where \<open>offset + size\<close> overflows: the byte range of
  \<open>overflowChunk\<close>, \<open>[0, 2 ^ 63)\<close>, meets \<open>[0,100)\<close>, and the call returns no chunk,
  since the sum wraps to the least \<^verbatim>\<open>int64\<close>.
\<close>

theorem resolve_range_overflow_counterexample:
  "\<not> IsChunkManifest overflowChunk \<and>
   max (sint (Offset overflowChunk)) (sint (0 :: int64))
     < min (sint (Offset overflowChunk) + uint (Size overflowChunk)) (sint (100 :: int64)) \<and>
   ResolveChunkManifest 0 brokenStore emptyWorld exampleLookup [overflowChunk] 0 100 =
     Some (([], [], None), emptyWorld)"
  by (simp add: ResolveChunkManifest_def overflowChunk_def max64_def min64_def)

section \<open>Resolving nested manifests\<close>

lemma fetch_outer:
  "fetchWholeChunk (exampleTransport p) 6000000000 w [] exampleLookup ''7,01'' [] False =
     Some (None, [1], w\<lparr>calls := calls w @ [streamRequest ''volume1/7,01'' [] False True 0 0]\<rparr>)"
  by (simp add: fetchWholeChunk_def exampleLookup_def retriedStreamFetchChunkData_def
      streamRounds.simps Second_def Let_def streamAttempt_def exampleTransport_def streamRequest_def)

lemma fetch_inner:
  "fetchWholeChunk (exampleTransport p) 6000000000 w [] exampleLookup ''7,02'' [] False =
     Some (None, [p], w\<lparr>calls := calls w @ [streamRequest ''volume1/7,02'' [] False True 0 0]\<rparr>)"
  by (simp add: fetchWholeChunk_def exampleLookup_def retriedStreamFetchChunkData_def
      streamRounds.simps Second_def Let_def streamAttempt_def exampleTransport_def streamRequest_def)

lemma resolveOne_outer:
  "ResolveOneChunkManifest (exampleStore sd sm) w exampleLookup outerManifest =
     Some (Inr [innerManifest, outerLeaf], w\<lparr>calls := calls w @ [streamRequest ''volume1/7,01'' [] False True 0 0]\<rparr>)"
  by (simp add: ResolveOneChunkManifest_def exampleStore_def outerManifest_def GetFileIdString_def
      fetch_outer exampleUnmarshal_def)

lemma resolveOne_inner:
  "ResolveOneChunkManifest (exampleStore sd sm) w exampleLookup innerManifest =
     Some (Inr [innerLeaf], w\<lparr>calls := calls w @ [streamRequest ''volume1/7,02'' [] False True 0 0]\<rparr>)"
  by (simp add: ResolveOneChunkManifest_def exampleStore_def innerManifest_def GetFileIdString_def
      fetch_inner exampleUnmarshal_def)

text \<open>
  What a call that returns without error returns: the leaf chunks and the manifest
  chunks of its own list that pass the range test. Nothing of what the recursive
  calls returned is in it.
\<close>

lemma resolveLoop_top_level_only:
  "resolveLoop d ext lk s e chunks rest dcs mcs w = Some ((dd, mm, None), w') \<Longrightarrow>
     dd = dcs @ filter (\<lambda>c. sint (max64 (Offset c) s) < sint (min64 (Offset c + Size c) e) \<and> \<not> IsChunkManifest c) rest \<and>
     mm = mcs @ filter (\<lambda>c. sint (max64 (Offset c) s) < sint (min64 (Offset c + Size c) e) \<and> IsChunkManifest c) rest"
proof (cases d)
  case 0
  assume "resolveLoop d ext lk s e chunks rest dcs mcs w = Some ((dd, mm, None), w')"
  then have "resolveLoop 0 ext lk s e chunks rest dcs mcs w = Some ((dd, mm, None), w')"
    using 0 by simp
  then show ?thesis
  proof (induction rest arbitrary: dcs mcs w)
    case Nil
    then show ?case by simp
  next
    case (Cons chunk rest)
    from Cons.prems show ?case
      by (auto simp: Let_def dest!: Cons.IH split: if_splits option.splits sum.splits prod.splits)
  qed
next
  case (Suc n)
  assume "resolveLoop d ext lk s e chunks rest dcs mcs w = Some ((dd, mm, None), w')"
  then have "resolveLoop (Suc n) ext lk s e chunks rest dcs mcs w = Some ((dd, mm, None), w')"
    using Suc by simp
  then show ?thesis
  proof (induction rest arbitrary: dcs mcs w)
    case Nil
    then show ?case by simp
  next
    case (Cons chunk rest)
    from Cons.prems show ?case
      by (auto simp: Let_def dest!: Cons.IH split: if_splits option.splits sum.splits prod.splits)
  qed
qed

text \<open>
  C1. A manifest chunk that passes the range test is decoded, recorded in the
  traversed-manifest list, and the algorithm is applied to its children with the same
  range; the claim has the leaf and manifest results of that recursive call merged
  into the caller's lists at the point of encounter. In the source they are assigned
  to variables of the loop body and lost: resolving \<open>[outerManifest]\<close> over
  \<open>[0,20)\<close> in the example store, whose tree holds the leaves \<open>innerLeaf\<close> and
  \<open>outerLeaf\<close> under the manifests \<open>innerManifest\<close> and \<open>outerManifest\<close>, fetches
  and decodes both manifests and returns no leaf chunk and the outer manifest alone,
  whatever \<^verbatim>\<open>subDataChunks\<close> and \<^verbatim>\<open>subManifestChunks\<close> stand for.
\<close>

theorem resolve_nested_results_lost:
  "\<forall>sd sm. ResolveChunkManifest 2 (exampleStore sd sm) emptyWorld exampleLookup [outerManifest] 0 20 =
     Some (([], [outerManifest], None),
           \<lparr>calls = [streamRequest ''volume1/7,01'' [] False True 0 0,
                     streamRequest ''volume1/7,02'' [] False True 0 0], sleeps = []\<rparr>)"
  apply (simp add: ResolveChunkManifest_def resolveOne_outer resolveOne_inner emptyWorld_def
         numeral_2_eq_2 Let_def)
  apply (simp add: outerManifest_def innerManifest_def outerLeaf_def innerLeaf_def max64_def min64_def)
  done

section \<open>The error path of the resolver\<close>

text \<open>A deeper stack does not change what a call returns.\<close>

lemma resolveLoop_mono_0:
  "resolveLoop 0 ext lk s e chunks rest dcs mcs w = Some r \<Longrightarrow>
   resolveLoop d' ext lk s e chunks rest dcs mcs w = Some r"
proof (induction rest arbitrary: dcs mcs w)
  case Nil
  then show ?case by simp
next
  case (Cons chunk rest)
  then show ?case
    by (auto split: if_splits option.splits sum.splits prod.splits)
qed

lemma resolveLoop_mono_Suc:
  assumes IH: "\<And>chunks rest dcs mcs w r. resolveLoop d ext lk s e chunks rest dcs mcs w = Some r \<Longrightarrow>
                  resolveLoop d' ext lk s e chunks rest dcs mcs w = Some r"
  shows "resolveLoop (Suc d) ext lk s e chunks rest dcs mcs w = Some r \<Longrightarrow>
         resolveLoop (Suc d') ext lk s e chunks rest dcs mcs w = Some r"
proof (induction rest arbitrary: dcs mcs w)
  case Nil
  then show ?case by simp
next
  case (Cons chunk rest)
  show ?case
  proof (cases "sint (min64 (Offset chunk + Size chunk) e) \<le> sint (max64 (Offset chunk) s) \<or> \<not> IsChunkManifest chunk")
    case True
    then show ?thesis using Cons by (auto split: if_splits)
  next
    case False
    then have c: "\<not> sint (min64 (Offset chunk + Size chunk) e) \<le> sint (max64 (Offset chunk) s)" "IsChunkManifest chunk"
      by auto
    show ?thesis
    proof (cases "ResolveOneChunkManifest ext w lk chunk")
      case None
      then show ?thesis using Cons.prems c by simp
    next
      case (Some a)
      then obtain res w1 where a: "ResolveOneChunkManifest ext w lk chunk = Some (res, w1)" by (cases a) auto
      show ?thesis
      proof (cases res)
        case (Inl err)
        then show ?thesis using Cons.prems c a by simp
      next
        case (Inr resolved)
        show ?thesis
        proof (cases "resolveLoop d ext lk s e resolved resolved [] [] w1")
          case None
          then show ?thesis using Cons.prems c a Inr by simp
        next
          case sub: (Some b)
          obtain dd mm se w2 where b: "b = ((dd, mm, se), w2)" by (cases b) auto
          have sub': "resolveLoop d' ext lk s e resolved resolved [] [] w1 = Some ((dd, mm, se), w2)"
            using IH[OF sub] b by simp
          show ?thesis
          proof (cases se)
            case None
            have "resolveLoop (Suc d) ext lk s e chunks rest dcs (mcs @ [chunk]) w2 = Some r"
              using Cons.prems c a Inr sub b None by (simp add: Let_def)
            then have "resolveLoop (Suc d') ext lk s e chunks rest dcs (mcs @ [chunk]) w2 = Some r"
              by (rule Cons.IH)
            then show ?thesis using c a Inr sub' None by (simp add: Let_def)
          next
            case (Some subErr)
            then show ?thesis using Cons.prems c a Inr sub b sub' by simp
          qed
        qed
      qed
    qed
  qed
qed

lemma resolveLoop_mono:
  "resolveLoop d ext lk s e chunks rest dcs mcs w = Some r \<Longrightarrow> d \<le> d' \<Longrightarrow>
   resolveLoop d' ext lk s e chunks rest dcs mcs w = Some r"
proof (induction d arbitrary: d' chunks rest dcs mcs w r)
  case 0
  from "0.prems"(1) show ?case by (rule resolveLoop_mono_0)
next
  case (Suc d)
  from Suc.prems(2) obtain d'' where d': "d' = Suc d''" "d \<le> d''" by (cases d') auto
  have "resolveLoop (Suc d'') ext lk s e chunks rest dcs mcs w = Some r"
  proof (rule resolveLoop_mono_Suc[OF _ Suc.prems(1)])
    fix chunks rest dcs mcs w r
    assume "resolveLoop d ext lk s e chunks rest dcs mcs w = Some r"
    then show "resolveLoop d'' ext lk s e chunks rest dcs mcs w = Some r"
      using d'(2) by (rule Suc.IH)
  qed
  then show ?case using d' by simp
qed

lemma traversal_resolveLoop:
  "traversal ext lk s e w rest r w' \<Longrightarrow> \<exists>n. resolvesTo ext lk s e w rest r w' n"
proof (induction rule: traversal.induct)
  case (finished w)
  show ?case by (rule exI[of _ 0]) (simp add: resolvesTo_def)
next
  case (skipped chunk w rest r w')
  then obtain n where n: "resolvesTo ext lk s e w rest r w' n" by blast
  have "resolvesTo ext lk s e w (chunk # rest) r w' n"
    using n skipped.hyps(1) unfolding resolvesTo_def by simp
  then show ?case by blast
next
  case (leaf chunk w rest r w')
  then obtain n where n: "resolvesTo ext lk s e w rest r w' n" by blast
  have "resolvesTo ext lk s e w (chunk # rest) r w' n"
    using n leaf.hyps(1,2) unfolding resolvesTo_def by simp
  then show ?case by blast
next
  case (decode_failed chunk w err w1 rest)
  have "resolvesTo ext lk s e w (chunk # rest) (Some err) w1 0"
    using decode_failed unfolding resolvesTo_def by simp
  then show ?case by blast
next
  case (nested_failed chunk w resolvedChunks w1 err w2 rest)
  then obtain n where n: "resolvesTo ext lk s e w1 resolvedChunks (Some err) w2 n" by blast
  have "resolvesTo ext lk s e w (chunk # rest) (Some err) w2 (Suc n)"
    unfolding resolvesTo_def
  proof (intro allI impI)
    fix d chunks dcs mcs assume "Suc n \<le> d"
    then obtain d0 where d: "d = Suc d0" "n \<le> d0" by (cases d) auto
    have sub: "resolveLoop d0 ext lk s e resolvedChunks resolvedChunks [] [] w1 = Some ((resolvedChunks, [], Some err), w2)"
      using n d(2) unfolding resolvesTo_def by simp
    show "(\<forall>err'. Some err = Some err' \<longrightarrow>
             resolveLoop d ext lk s e chunks (chunk # rest) dcs mcs w = Some ((chunks, [], Some err'), w2)) \<and>
          (Some err = None \<longrightarrow>
             (\<exists>dd mm. resolveLoop d ext lk s e chunks (chunk # rest) dcs mcs w = Some ((dd, mm, None), w2)))"
      using nested_failed.hyps(1,2,3) sub d(1) by simp
  qed
  then show ?case by blast
next
  case (nested_done chunk w resolvedChunks w1 w2 rest r w3)
  then obtain n1 n2 where n1: "resolvesTo ext lk s e w1 resolvedChunks None w2 n1"
    and n2: "resolvesTo ext lk s e w2 rest r w3 n2" by blast
  have "resolvesTo ext lk s e w (chunk # rest) r w3 (max (Suc n1) n2)"
    unfolding resolvesTo_def
  proof (intro allI impI)
    fix d chunks dcs mcs assume "max (Suc n1) n2 \<le> d"
    then obtain d0 where d: "d = Suc d0" "n1 \<le> d0" "n2 \<le> d" by (cases d) auto
    obtain dd mm where sub: "resolveLoop d0 ext lk s e resolvedChunks resolvedChunks [] [] w1 = Some ((dd, mm, None), w2)"
      using n1 d(2) unfolding resolvesTo_def by fastforce
    have step: "resolveLoop d ext lk s e chunks (chunk # rest) dcs mcs w =
                resolveLoop d ext lk s e chunks rest dcs (mcs @ [chunk]) w2"
      using nested_done.hyps(1,2,3) sub d(1) by (simp add: Let_def)
    show "(\<forall>err. r = Some err \<longrightarrow>
             resolveLoop d ext lk s e chunks (chunk # rest) dcs mcs w = Some ((chunks, [], Some err), w3)) \<and>
          (r = None \<longrightarrow>
             (\<exists>dd mm. resolveLoop d ext lk s e chunks (chunk # rest) dcs mcs w = Some ((dd, mm, None), w3)))"
      unfolding step using n2 d(3) unfolding resolvesTo_def by blast
  qed
  then show ?case by blast
qed

lemma resolveLoop_error_fallback:
  "resolveLoop d ext lk s e chunks rest dcs mcs w = Some ((dd, mm, Some err), w') \<Longrightarrow> dd = chunks \<and> mm = []"
proof (induction rest arbitrary: dcs mcs w)
  case Nil
  then show ?case by simp
next
  case (Cons chunk rest)
  then show ?case
    by (auto simp: Let_def split: if_splits option.splits sum.splits prod.splits nat.splits)
qed

lemma broken_outer:
  "ResolveOneChunkManifest brokenStore w exampleLookup outerManifest =
     Some (Inr [innerManifest, outerLeaf], w\<lparr>calls := calls w @ [streamRequest ''volume1/7,01'' [] False True 0 0]\<rparr>)"
  by (simp add: ResolveOneChunkManifest_def brokenStore_def outerManifest_def GetFileIdString_def
      fetch_outer exampleUnmarshal_def)

lemma broken_inner:
  "ResolveOneChunkManifest brokenStore w exampleLookup innerManifest =
     Some (Inl (FailToUnmarshalManifest ''7,02'' (External ''malformed manifest'')),
           w\<lparr>calls := calls w @ [streamRequest ''volume1/7,02'' [] False True 0 0]\<rparr>)"
  by (simp add: ResolveOneChunkManifest_def brokenStore_def innerManifest_def GetFileIdString_def
      fetch_inner exampleUnmarshal_def)

lemma outer_in_range: "sint (max64 (Offset outerManifest) 0) < sint (min64 (Offset outerManifest + Size outerManifest) 20)"
  by (simp add: outerManifest_def max64_def min64_def)

lemma inner_in_range: "sint (max64 (Offset innerManifest) 0) < sint (min64 (Offset innerManifest + Size innerManifest) 20)"
  by (simp add: innerManifest_def max64_def min64_def)

lemma broken_traversal:
  "traversal brokenStore exampleLookup 0 20 emptyWorld [outerManifest]
     (Some (FailToUnmarshalManifest ''7,02'' (External ''malformed manifest'')))
     \<lparr>calls = [streamRequest ''volume1/7,01'' [] False True 0 0,
               streamRequest ''volume1/7,02'' [] False True 0 0], sleeps = []\<rparr>"
proof (rule traversal.nested_failed[OF outer_in_range _ broken_outer])
  show "IsChunkManifest outerManifest" by (simp add: outerManifest_def)
  have "traversal brokenStore exampleLookup 0 20
          (emptyWorld\<lparr>calls := calls emptyWorld @ [streamRequest ''volume1/7,01'' [] False True 0 0]\<rparr>)
          [innerManifest, outerLeaf]
          (Some (FailToUnmarshalManifest ''7,02'' (External ''malformed manifest'')))
          ((emptyWorld\<lparr>calls := calls emptyWorld @ [streamRequest ''volume1/7,01'' [] False True 0 0]\<rparr>)
             \<lparr>calls := calls (emptyWorld\<lparr>calls := calls emptyWorld @ [streamRequest ''volume1/7,01'' [] False True 0 0]\<rparr>)
                         @ [streamRequest ''volume1/7,02'' [] False True 0 0]\<rparr>)"
    by (rule traversal.decode_failed[OF inner_in_range _ broken_inner]) (simp add: innerManifest_def)
  then show "traversal brokenStore exampleLookup 0 20
          (emptyWorld\<lparr>calls := calls emptyWorld @ [streamRequest ''volume1/7,01'' [] False True 0 0]\<rparr>)
          [innerManifest, outerLeaf]
          (Some (FailToUnmarshalManifest ''7,02'' (External ''malformed manifest'')))
          \<lparr>calls = [streamRequest ''volume1/7,01'' [] False True 0 0,
               streamRequest ''volume1/7,02'' [] False True 0 0], sleeps = []\<rparr>"
    by (simp add: emptyWorld_def)
qed

lemma broken_run:
  "ResolveChunkManifest 2 brokenStore emptyWorld exampleLookup [outerManifest] 0 20 =
     Some (([outerManifest], [], Some (FailToUnmarshalManifest ''7,02'' (External ''malformed manifest''))),
           \<lparr>calls = [streamRequest ''volume1/7,01'' [] False True 0 0,
                     streamRequest ''volume1/7,02'' [] False True 0 0], sleeps = []\<rparr>)"
  apply (simp add: ResolveChunkManifest_def broken_outer broken_inner emptyWorld_def numeral_2_eq_2 Let_def)
  apply (simp add: outerManifest_def innerManifest_def max64_def min64_def)
  done

text \<open>
  C4. When the traversal of a chunk list meets a manifest, at any depth, whose fetch
  or decode fails, the top-level call of \<^verbatim>\<open>ResolveChunkManifest\<close> (with stack enough
  for the nesting) returns the input chunk list as it was given, an empty
  traversed-manifest list and that error; and whenever a call returns an error, what it returns with it
  is the input list and an empty manifest list.
\<close>

theorem resolve_error_returns_input:
  "(traversal ext lookupFileIdFn startOffset stopOffset w chunks (Some err) w' \<longrightarrow>
      (\<exists>n. \<forall>depth \<ge> n.
         ResolveChunkManifest depth ext w lookupFileIdFn chunks startOffset stopOffset =
           Some ((chunks, [], Some err), w'))) \<and>
   (ResolveChunkManifest depth ext w lookupFileIdFn chunks startOffset stopOffset =
      Some ((dataChunks, manifestChunks, Some err), w') \<longrightarrow>
      dataChunks = chunks \<and> manifestChunks = [])"
proof (intro conjI impI)
  assume "traversal ext lookupFileIdFn startOffset stopOffset w chunks (Some err) w'"
  then obtain n where "resolvesTo ext lookupFileIdFn startOffset stopOffset w chunks (Some err) w' n"
    using traversal_resolveLoop by blast
  then have "\<forall>depth \<ge> n. ResolveChunkManifest depth ext w lookupFileIdFn chunks startOffset stopOffset =
           Some ((chunks, [], Some err), w')"
    unfolding resolvesTo_def ResolveChunkManifest_def by simp
  then show "\<exists>n. \<forall>depth \<ge> n.
         ResolveChunkManifest depth ext w lookupFileIdFn chunks startOffset stopOffset =
           Some ((chunks, [], Some err), w')" by blast
next
  assume "ResolveChunkManifest depth ext w lookupFileIdFn chunks startOffset stopOffset =
      Some ((dataChunks, manifestChunks, Some err), w')"
  then show "dataChunks = chunks" "manifestChunks = []"
    using resolveLoop_error_fallback unfolding ResolveChunkManifest_def by blast+
qed

text \<open>
  The example: the payload of the nested manifest \<open>innerManifest\<close> (depth 2) is
  malformed.
\<close>

theorem resolve_error_returns_input_witness:
  "traversal brokenStore exampleLookup 0 20 emptyWorld [outerManifest]
     (Some (FailToUnmarshalManifest ''7,02'' (External ''malformed manifest'')))
     \<lparr>calls = [streamRequest ''volume1/7,01'' [] False True 0 0,
               streamRequest ''volume1/7,02'' [] False True 0 0], sleeps = []\<rparr> \<and>
   (\<exists>n. \<forall>depth \<ge> n.
      ResolveChunkManifest depth brokenStore emptyWorld exampleLookup [outerManifest] 0 20 =
        Some (([outerManifest], [], Some (FailToUnmarshalManifest ''7,02'' (External ''malformed manifest''))),
              \<lparr>calls = [streamRequest ''volume1/7,01'' [] False True 0 0,
                        streamRequest ''volume1/7,02'' [] False True 0 0], sleeps = []\<rparr>)) \<and>
   ResolveChunkManifest 2 brokenStore emptyWorld exampleLookup [outerManifest] 0 20 =
     Some (([outerManifest], [], Some (FailToUnmarshalManifest ''7,02'' (External ''malformed manifest''))),
           \<lparr>calls = [streamRequest ''volume1/7,01'' [] False True 0 0,
                     streamRequest ''volume1/7,02'' [] False True 0 0], sleeps = []\<rparr>) \<and>
   [outerManifest] = [outerManifest] \<and> ([] :: FileChunk list) = []"
  using broken_traversal broken_run
    resolve_error_returns_input[of brokenStore exampleLookup 0 20 emptyWorld "[outerManifest]"
      "FailToUnmarshalManifest ''7,02'' (External ''malformed manifest'')"
      "\<lparr>calls = [streamRequest ''volume1/7,01'' [] False True 0 0,
               streamRequest ''volume1/7,02'' [] False True 0 0], sleeps = []\<rparr>"
      2 "[outerManifest]" "[]"]
  by blast


section \<open>The retry engine\<close>

text \<open>
  Where the wait stays below \<open>2 ^ 62\<close> nanoseconds the loop header's
  \<^verbatim>\<open>waitTime += waitTime / 2\<close> does not wrap, and from two nanoseconds on it grows.
\<close>

lemma nextWait_no_wrap:
  assumes "0 \<le> w" "w < 2 ^ 62"
  shows "nextWait w = w + w div 2"
proof -
  have s: "w sdiv 2 = w div 2" using assms(1) by (simp add: signed_divide_int_def sgn_if)
  have "w + w div 2 < 2 ^ 63" using assms by simp
  moreover have "0 \<le> w + w div 2" using assms(1) by simp
  ultimately have "i64 (w + w div 2) = w + w div 2"
    by (simp add: i64_def)
  then show ?thesis by (simp add: nextWait_def s)
qed

lemma nextWait_grows:
  assumes "2 \<le> w" "w < 2 ^ 62"
  shows "w < nextWait w"
  using assms nextWait_no_wrap[of w] by simp

lemma waitOfRound_ge_Second:
  "(\<forall>j<k. waitOfRound j < 2 ^ 62) \<Longrightarrow> Second \<le> waitOfRound k"
proof (induction k)
  case 0
  then show ?case by simp
next
  case (Suc k)
  then have ge: "Second \<le> waitOfRound k" and lt: "waitOfRound k < 2 ^ 62" by simp_all
  have "2 \<le> waitOfRound k" using ge by (simp add: Second_def)
  from nextWait_grows[OF this lt] ge show ?case by simp
qed

lemma waitOfRound_factor:
  assumes "\<forall>j\<le>k. waitOfRound j < 2 ^ 62"
  shows "waitOfRound (Suc k) = waitOfRound k + waitOfRound k div 2"
proof -
  have "Second \<le> waitOfRound k" using assms by (intro waitOfRound_ge_Second) simp
  then have "0 \<le> waitOfRound k" by (simp add: Second_def)
  moreover have "waitOfRound k < 2 ^ 62" using assms by simp
  ultimately show ?thesis by (simp add: nextWait_no_wrap)
qed

lemma answered_append_old: "i < length cs \<Longrightarrow> answered tr (cs @ [rq]) i = answered tr cs i"
  by (simp add: answered_def nth_append)

lemma answered_append_new: "answered tr (cs @ [rq]) (length cs) = tr cs rq"
  by (simp add: answered_def)

lemma terminalInv_attempt:
  assumes K: "terminalInv tr k0 cs sr e"
    and go: "k0 < length cs \<longrightarrow> sr \<and> e \<noteq> None"
  shows "terminalInv tr k0 (cs @ [rq]) (resp_shouldRetry (tr cs rq)) (resp_err (tr cs rq))"
  unfolding terminalInv_def
proof (intro conjI allI impI)
  show "k0 \<le> length (cs @ [rq])" using K by (simp add: terminalInv_def)
next
  fix i assume i: "k0 \<le> i \<and> Suc i < length (cs @ [rq])"
  then have il: "i < length cs" by simp
  have "resp_shouldRetry (answered tr cs i) \<and> resp_err (answered tr cs i) \<noteq> None"
  proof (cases "Suc i < length cs")
    case True
    then show ?thesis using K i by (simp add: terminalInv_def)
  next
    case False
    then have last: "i = length cs - 1" "k0 < length cs" using il i by auto
    then show ?thesis using K go by (simp add: terminalInv_def)
  qed
  then show "resp_shouldRetry (answered tr (cs @ [rq]) i)" "resp_err (answered tr (cs @ [rq]) i) \<noteq> None"
    using il by (simp_all add: answered_append_old)
next
  show "resp_shouldRetry (tr cs rq) = resp_shouldRetry (answered tr (cs @ [rq]) (length (cs @ [rq]) - 1))"
    by (simp add: answered_append_new)
  show "resp_err (tr cs rq) = resp_err (answered tr (cs @ [rq]) (length (cs @ [rq]) - 1))"
    by (simp add: answered_append_new)
qed

subsection \<open>The loop of the streaming fetch\<close>

lemma streamRounds_partial:
  assumes run: "streamRounds tr c ck gz fc off sz urls w s = Some s'"
    and init: "I s"
    and round: "\<And>s. I s \<Longrightarrow> R (streamRound tr ck gz fc off sz urls s)"
    and again: "\<And>s w. R s \<Longrightarrow> s_err s \<noteq> None \<Longrightarrow> s_shouldRetry s \<Longrightarrow> I (streamSleep w s)"
    and stop: "\<And>s. R s \<Longrightarrow> \<not> (s_err s \<noteq> None \<and> s_shouldRetry s) \<Longrightarrow> Q s"
    and giveup: "\<And>s. I s \<Longrightarrow> Q s"
  shows "Q s'"
proof -
  let ?P = "\<lambda>tr' (c'::int) ck' gz' fc' off' sz' urls' (w'::int) s0 s1.
      (tr' = tr \<and> ck' = ck \<and> gz' = gz \<and> fc' = fc \<and> off' = off \<and> sz' = sz \<and> urls' = urls) \<longrightarrow> I s0 \<longrightarrow> Q s1"
  have "?P tr c ck gz fc off sz urls w s s'"
  proof (rule streamRounds.raw_induct[where P = ?P, OF _ run], intro impI)
    fix rounds tr' c' ck' gz' fc' off' sz' urls' w' s0 s1
    assume IH: "\<And>tr' c' ck' gz' fc' off' sz' urls' w' s0 s1.
        rounds tr' c' ck' gz' fc' off' sz' urls' w' s0 = Some s1 \<Longrightarrow> ?P tr' c' ck' gz' fc' off' sz' urls' w' s0 s1"
      and body: "(if w' < c' then
          let s' = streamRound tr' ck' gz' fc' off' sz' urls' s0
          in if s_err s' \<noteq> None \<and> s_shouldRetry s'
             then rounds tr' c' ck' gz' fc' off' sz' urls' (nextWait w') (streamSleep w' s')
             else Some s'
        else Some s0) = Some s1"
      and eq: "tr' = tr \<and> ck' = ck \<and> gz' = gz \<and> fc' = fc \<and> off' = off \<and> sz' = sz \<and> urls' = urls"
      and I0: "I s0"
    let ?r = "streamRound tr ck gz fc off sz urls s0"
    have R1: "R ?r" using I0 by (rule round)
    show "Q s1"
    proof (cases "w' < c'")
      case False
      then have "s1 = s0" using body by simp
      then show ?thesis using I0 giveup by simp
    next
      case True
      show ?thesis
      proof (cases "s_err ?r \<noteq> None \<and> s_shouldRetry ?r")
        case False
        then have "s1 = ?r" using body True eq by (auto simp: Let_def)
        then show ?thesis using stop[OF R1 False] by simp
      next
        case again': True
        then have "rounds tr c' ck gz fc off sz urls (nextWait w') (streamSleep w' ?r) = Some s1"
          using body True eq by (auto simp: Let_def)
        from IH[OF this] again[OF R1, of w'] again' show ?thesis by simp
      qed
    qed
  qed
  with init show ?thesis by simp
qed

lemma streamRounds_total:
  assumes bound: "c \<le> 2 ^ 62"
    and inv: "I w s" and wpos: "2 \<le> w"
    and again: "\<And>w s. I w s \<Longrightarrow> 2 \<le> w \<Longrightarrow> w < c \<Longrightarrow>
        s_err (streamRound tr ck gz fc off sz urls s) \<noteq> None \<and> s_shouldRetry (streamRound tr ck gz fc off sz urls s) \<Longrightarrow>
        I (nextWait w) (streamSleep w (streamRound tr ck gz fc off sz urls s))"
    and stop: "\<And>w s. I w s \<Longrightarrow> 2 \<le> w \<Longrightarrow> w < c \<Longrightarrow>
        \<not> (s_err (streamRound tr ck gz fc off sz urls s) \<noteq> None \<and> s_shouldRetry (streamRound tr ck gz fc off sz urls s)) \<Longrightarrow>
        Q (streamRound tr ck gz fc off sz urls s)"
    and giveup: "\<And>w s. I w s \<Longrightarrow> 2 \<le> w \<Longrightarrow> c \<le> w \<Longrightarrow> Q s"
  shows "\<exists>s'. streamRounds tr c ck gz fc off sz urls w s = Some s' \<and> Q s'"
  using inv wpos
proof (induction "nat (c - w)" arbitrary: w s rule: less_induct)
  case less
  show ?case
  proof (cases "w < c")
    case False
    then have "streamRounds tr c ck gz fc off sz urls w s = Some s"
      by (subst streamRounds.simps) simp
    moreover have "Q s" using giveup[OF less.prems] False by simp
    ultimately show ?thesis by blast
  next
    case True
    let ?r = "streamRound tr ck gz fc off sz urls s"
    show ?thesis
    proof (cases "s_err ?r \<noteq> None \<and> s_shouldRetry ?r")
      case False
      then have "streamRounds tr c ck gz fc off sz urls w s = Some ?r"
        using True by (subst streamRounds.simps) (auto simp: Let_def)
      moreover have "Q ?r" using stop[OF less.prems True False] .
      ultimately show ?thesis by blast
    next
      case again': True
      have w62: "w < 2 ^ 62" using True bound by simp
      have grow: "w < nextWait w" using nextWait_grows[OF less.prems(2) w62] .
      have m: "nat (c - nextWait w) < nat (c - w)" using grow True by simp
      have I': "I (nextWait w) (streamSleep w ?r)" using again[OF less.prems True again'] .
      have "2 \<le> nextWait w" using grow less.prems(2) by simp
      from less.hyps[OF m I' this]
      obtain s' where "streamRounds tr c ck gz fc off sz urls (nextWait w) (streamSleep w ?r) = Some s'" "Q s'"
        by blast
      moreover have "streamRounds tr c ck gz fc off sz urls w s =
          streamRounds tr c ck gz fc off sz urls (nextWait w) (streamSleep w ?r)"
        using True again' by (subst streamRounds.simps) (simp add: Let_def)
      ultimately show ?thesis by simp
    qed
  qed
qed

lemma streamAttempt_world:
  "calls (s_world (streamAttempt tr rq s)) = calls (s_world s) @ [rq]"
  "sleeps (s_world (streamAttempt tr rq s)) = sleeps (s_world s)"
  by (simp_all add: streamAttempt_def Let_def split: prod.splits)

lemma streamAttempt_result:
  "s_shouldRetry (streamAttempt tr rq s) = resp_shouldRetry (tr (calls (s_world s)) rq)"
  "s_err (streamAttempt tr rq s) = resp_err (tr (calls (s_world s)) rq)"
  by (simp_all add: streamAttempt_def Let_def split: prod.splits)

lemma streamAttempt_answered:
  "answered tr (calls (s_world (streamAttempt tr rq s))) (length (calls (s_world (streamAttempt tr rq s))) - 1)
     = tr (calls (s_world s)) rq"
  by (simp add: streamAttempt_world answered_def)

lemma streamSleep_simps:
  "calls (s_world (streamSleep w s)) = calls (s_world s)"
  "sleeps (s_world (streamSleep w s)) = sleeps (s_world s) @ [w]"
  "s_err (streamSleep w s) = s_err s"
  "s_shouldRetry (streamSleep w s) = s_shouldRetry s"
  "s_sink (streamSleep w s) = s_sink s"
  "s_totalWritten (streamSleep w s) = s_totalWritten s"
  by (simp_all add: streamSleep_def)

lemma streamRound_always_fail:
  assumes always: "\<forall>h rq. resp_shouldRetry (tr h rq) \<and> resp_err (tr h rq) \<noteq> None"
  shows "length (calls (s_world (streamRound tr ck gz fc off sz urls s))) =
           length (calls (s_world s)) + length urls \<and>
         sleeps (s_world (streamRound tr ck gz fc off sz urls s)) = sleeps (s_world s) \<and>
         (urls \<noteq> [] \<longrightarrow>
            s_shouldRetry (streamRound tr ck gz fc off sz urls s) \<and>
            s_err (streamRound tr ck gz fc off sz urls s) =
              resp_err (answered tr (calls (s_world (streamRound tr ck gz fc off sz urls s)))
                         (length (calls (s_world (streamRound tr ck gz fc off sz urls s))) - 1)))"
proof (induction urls arbitrary: s)
  case Nil
  then show ?case by simp
next
  case (Cons u urls)
  let ?a = "streamAttempt tr (streamRequest u ck gz fc off sz) s"
  have r: "s_shouldRetry ?a" "s_err ?a \<noteq> None"
    using always by (simp_all add: streamAttempt_result)
  have step: "streamRound tr ck gz fc off sz (u # urls) s = streamRound tr ck gz fc off sz urls ?a"
    using r by (simp add: Let_def)
  show ?case
  proof (cases "urls = []")
    case True
    then show ?thesis
      using r by (simp add: Let_def streamAttempt_world streamAttempt_result answered_def)
  next
    case False
    then show ?thesis
      unfolding step using Cons.IH[of ?a] by (simp add: streamAttempt_world)
  qed
qed

lemma stream_always_fail:
  assumes always: "\<forall>h rq. resp_shouldRetry (tr h rq) \<and> resp_err (tr h rq) \<noteq> None"
    and urls: "urls \<noteq> []" and c1: "Second < c" and c2: "c \<le> 2 ^ 62"
  shows "\<exists>s' n. streamRounds tr c ck gz fc off sz urls Second s = Some s' \<and> 0 < n \<and>
           sleeps (s_world s') = sleeps (s_world s) @ map waitOfRound [0..<n] \<and>
           (\<forall>k<n. waitOfRound k < c) \<and> c \<le> waitOfRound n \<and>
           length (calls (s_world s')) = length (calls (s_world s)) + n * length urls \<and>
           s_err s' = resp_err (answered tr (calls (s_world s')) (length (calls (s_world s')) - 1))"
proof -
  let ?I = "\<lambda>w (s1::stream_state). \<exists>n. w = waitOfRound n \<and>
           sleeps (s_world s1) = sleeps (s_world s) @ map waitOfRound [0..<n] \<and>
           (\<forall>k<n. waitOfRound k < c) \<and>
           length (calls (s_world s1)) = length (calls (s_world s)) + n * length urls \<and>
           (0 < n \<longrightarrow> s_err s1 = resp_err (answered tr (calls (s_world s1)) (length (calls (s_world s1)) - 1)))"
  let ?Q = "\<lambda>(s'::stream_state). \<exists>n. 0 < n \<and>
           sleeps (s_world s') = sleeps (s_world s) @ map waitOfRound [0..<n] \<and>
           (\<forall>k<n. waitOfRound k < c) \<and> c \<le> waitOfRound n \<and>
           length (calls (s_world s')) = length (calls (s_world s)) + n * length urls \<and>
           s_err s' = resp_err (answered tr (calls (s_world s')) (length (calls (s_world s')) - 1))"
  have "\<exists>s'. streamRounds tr c ck gz fc off sz urls Second s = Some s' \<and> ?Q s'"
  proof (rule streamRounds_total[where I = ?I and Q = ?Q, OF c2])
    show "?I Second s" by (rule exI[of _ 0]) simp
    show "2 \<le> Second" by (simp add: Second_def)
  next
    fix w and s1 :: stream_state
    assume I: "?I w s1" and "2 \<le> w" and wc: "w < c"
    then obtain n where n: "w = waitOfRound n"
        "sleeps (s_world s1) = sleeps (s_world s) @ map waitOfRound [0..<n]"
        "\<forall>k<n. waitOfRound k < c"
        "length (calls (s_world s1)) = length (calls (s_world s)) + n * length urls"
      by blast
    let ?r = "streamRound tr ck gz fc off sz urls s1"
    note rf = streamRound_always_fail[OF always, of ck gz fc off sz urls s1]
    have "?I (nextWait w) (streamSleep w ?r)"
    proof (intro exI[of _ "Suc n"] conjI)
      show "nextWait w = waitOfRound (Suc n)" using n(1) by simp
      show "sleeps (s_world (streamSleep w ?r)) = sleeps (s_world s) @ map waitOfRound [0..<Suc n]"
        using rf n(1,2) by (simp add: streamSleep_simps)
      show "\<forall>k<Suc n. waitOfRound k < c" using n(1,3) wc by (simp add: less_Suc_eq)
      show "length (calls (s_world (streamSleep w ?r))) = length (calls (s_world s)) + Suc n * length urls"
        using rf n(4) by (simp add: streamSleep_simps)
      show "0 < Suc n \<longrightarrow> s_err (streamSleep w ?r) =
          resp_err (answered tr (calls (s_world (streamSleep w ?r))) (length (calls (s_world (streamSleep w ?r))) - 1))"
        using rf urls by (simp add: streamSleep_simps)
    qed
    then show "?I (nextWait w) (streamSleep w ?r)" .
  next
    fix w and s1 :: stream_state
    assume "\<not> (s_err (streamRound tr ck gz fc off sz urls s1) \<noteq> None \<and>
                s_shouldRetry (streamRound tr ck gz fc off sz urls s1))"
    moreover have "s_shouldRetry (streamRound tr ck gz fc off sz urls s1)"
      and "s_err (streamRound tr ck gz fc off sz urls s1) \<noteq> None"
      using streamRound_always_fail[OF always, of ck gz fc off sz urls s1] urls always
      by (simp_all add: answered_def)
    ultimately show "?Q (streamRound tr ck gz fc off sz urls s1)" by simp
  next
    fix w and s1 :: stream_state
    assume I: "?I w s1" and cw: "c \<le> w"
    then obtain n where n: "w = waitOfRound n"
        "sleeps (s_world s1) = sleeps (s_world s) @ map waitOfRound [0..<n]"
        "\<forall>k<n. waitOfRound k < c"
        "length (calls (s_world s1)) = length (calls (s_world s)) + n * length urls"
        "0 < n \<longrightarrow> s_err s1 = resp_err (answered tr (calls (s_world s1)) (length (calls (s_world s1)) - 1))"
      by blast
    have "0 < n"
    proof (rule ccontr)
      assume "\<not> 0 < n"
      then have "w = Second" using n(1) by simp
      then show False using c1 cw by simp
    qed
    then show "?Q s1" using n cw by blast
  qed
  then show ?thesis by blast
qed

lemma streamRound_terminalInv:
  assumes "terminalInv tr k0 (calls (s_world s)) (s_shouldRetry s) (s_err s)"
    and "k0 < length (calls (s_world s)) \<longrightarrow> s_shouldRetry s \<and> s_err s \<noteq> None"
  shows "terminalInv tr k0 (calls (s_world (streamRound tr ck gz fc off sz urls s)))
           (s_shouldRetry (streamRound tr ck gz fc off sz urls s)) (s_err (streamRound tr ck gz fc off sz urls s))"
  using assms
proof (induction urls arbitrary: s)
  case Nil
  then show ?case by simp
next
  case (Cons u urls)
  let ?a = "streamAttempt tr (streamRequest u ck gz fc off sz) s"
  have Ka: "terminalInv tr k0 (calls (s_world ?a)) (s_shouldRetry ?a) (s_err ?a)"
    using terminalInv_attempt[OF Cons.prems] by (simp add: streamAttempt_world streamAttempt_result)
  show ?case
  proof (cases "s_shouldRetry ?a \<and> s_err ?a \<noteq> None")
    case True
    then have "streamRound tr ck gz fc off sz (u # urls) s = streamRound tr ck gz fc off sz urls ?a"
      by (simp add: Let_def)
    moreover have "terminalInv tr k0 (calls (s_world (streamRound tr ck gz fc off sz urls ?a)))
           (s_shouldRetry (streamRound tr ck gz fc off sz urls ?a)) (s_err (streamRound tr ck gz fc off sz urls ?a))"
      using Ka True by (intro Cons.IH) simp_all
    ultimately show ?thesis by simp
  next
    case False
    then have "streamRound tr ck gz fc off sz (u # urls) s = ?a"
      by (auto simp: Let_def)
    then show ?thesis using Ka by simp
  qed
qed

lemma stream_terminal_is_last:
  assumes run: "streamRounds tr c ck gz fc off sz urls w s = Some s'"
    and k0: "k0 = length (calls (s_world s))"
  shows "terminalInv tr k0 (calls (s_world s')) (s_shouldRetry s') (s_err s')"
proof -
  let ?K = "\<lambda>s::stream_state. terminalInv tr k0 (calls (s_world s)) (s_shouldRetry s) (s_err s)"
  let ?I = "\<lambda>s::stream_state. ?K s \<and> (k0 < length (calls (s_world s)) \<longrightarrow> s_shouldRetry s \<and> s_err s \<noteq> None)"
  show ?thesis
  proof (rule streamRounds_partial[where I = ?I and R = ?K and Q = ?K, OF run])
    show "?I s" using k0 by (auto simp: terminalInv_def)
  next
    fix s :: stream_state assume "?I s"
    then show "?K (streamRound tr ck gz fc off sz urls s)"
      using streamRound_terminalInv by blast
  next
    fix s :: stream_state and w assume "?K s" "s_err s \<noteq> None" "s_shouldRetry s"
    then show "?I (streamSleep w s)" by (simp add: streamSleep_simps)
  qed simp_all
qed

lemma stream_terminal_round:
  assumes "w < c" "\<not> s_shouldRetry (streamRound tr ck gz fc off sz urls s)"
  shows "streamRounds tr c ck gz fc off sz urls w s = Some (streamRound tr ck gz fc off sz urls s)"
  using assms by (subst streamRounds.simps) (simp add: Let_def)

subsection \<open>The loop of the range fetch\<close>

lemma rangeRounds_partial:
  assumes run: "rangeRounds tr c pe ck gz fc off urls w s = Some s'"
    and init: "I s"
    and round: "\<And>s. I s \<Longrightarrow> R (rangeRound tr pe ck gz fc off urls s)"
    and again: "\<And>s w. R s \<Longrightarrow> r_err s \<noteq> None \<Longrightarrow> r_shouldRetry s \<Longrightarrow> I (rangeSleep w s)"
    and stop: "\<And>s. R s \<Longrightarrow> \<not> (r_err s \<noteq> None \<and> r_shouldRetry s) \<Longrightarrow> Q s"
    and giveup: "\<And>s. I s \<Longrightarrow> Q s"
  shows "Q s'"
proof -
  let ?P = "\<lambda>tr' (c'::int) pe' ck' gz' fc' off' urls' (w'::int) s0 s1.
      (tr' = tr \<and> pe' = pe \<and> ck' = ck \<and> gz' = gz \<and> fc' = fc \<and> off' = off \<and> urls' = urls) \<longrightarrow> I s0 \<longrightarrow> Q s1"
  have "?P tr c pe ck gz fc off urls w s s'"
  proof (rule rangeRounds.raw_induct[where P = ?P, OF _ run], intro impI)
    fix rounds tr' c' pe' ck' gz' fc' off' urls' w' s0 s1
    assume IH: "\<And>tr' c' pe' ck' gz' fc' off' urls' w' s0 s1.
        rounds tr' c' pe' ck' gz' fc' off' urls' w' s0 = Some s1 \<Longrightarrow> ?P tr' c' pe' ck' gz' fc' off' urls' w' s0 s1"
      and body: "(if w' < c' then
          let s' = rangeRound tr' pe' ck' gz' fc' off' urls' s0
          in if r_err s' \<noteq> None \<and> r_shouldRetry s'
             then rounds tr' c' pe' ck' gz' fc' off' urls' (nextWait w') (rangeSleep w' s')
             else Some s'
        else Some s0) = Some s1"
      and eq: "tr' = tr \<and> pe' = pe \<and> ck' = ck \<and> gz' = gz \<and> fc' = fc \<and> off' = off \<and> urls' = urls"
      and I0: "I s0"
    let ?r = "rangeRound tr pe ck gz fc off urls s0"
    have R1: "R ?r" using I0 by (rule round)
    show "Q s1"
    proof (cases "w' < c'")
      case False
      then have "s1 = s0" using body by simp
      then show ?thesis using I0 giveup by simp
    next
      case True
      show ?thesis
      proof (cases "r_err ?r \<noteq> None \<and> r_shouldRetry ?r")
        case False
        then have "s1 = ?r" using body True eq by (auto simp: Let_def)
        then show ?thesis using stop[OF R1 False] by simp
      next
        case again': True
        then have "rounds tr c' pe ck gz fc off urls (nextWait w') (rangeSleep w' ?r) = Some s1"
          using body True eq by (auto simp: Let_def)
        from IH[OF this] again[OF R1, of w'] again' show ?thesis by simp
      qed
    qed
  qed
  with init show ?thesis by simp
qed

lemma rangeRounds_total:
  assumes bound: "c \<le> 2 ^ 62"
    and inv: "I w s" and wpos: "2 \<le> w"
    and again: "\<And>w s. I w s \<Longrightarrow> 2 \<le> w \<Longrightarrow> w < c \<Longrightarrow>
        r_err (rangeRound tr pe ck gz fc off urls s) \<noteq> None \<and> r_shouldRetry (rangeRound tr pe ck gz fc off urls s) \<Longrightarrow>
        I (nextWait w) (rangeSleep w (rangeRound tr pe ck gz fc off urls s))"
    and stop: "\<And>w s. I w s \<Longrightarrow> 2 \<le> w \<Longrightarrow> w < c \<Longrightarrow>
        \<not> (r_err (rangeRound tr pe ck gz fc off urls s) \<noteq> None \<and> r_shouldRetry (rangeRound tr pe ck gz fc off urls s)) \<Longrightarrow>
        Q (rangeRound tr pe ck gz fc off urls s)"
    and giveup: "\<And>w s. I w s \<Longrightarrow> 2 \<le> w \<Longrightarrow> c \<le> w \<Longrightarrow> Q s"
  shows "\<exists>s'. rangeRounds tr c pe ck gz fc off urls w s = Some s' \<and> Q s'"
  using inv wpos
proof (induction "nat (c - w)" arbitrary: w s rule: less_induct)
  case less
  show ?case
  proof (cases "w < c")
    case False
    then have "rangeRounds tr c pe ck gz fc off urls w s = Some s"
      by (subst rangeRounds.simps) simp
    moreover have "Q s" using giveup[OF less.prems] False by simp
    ultimately show ?thesis by blast
  next
    case True
    let ?r = "rangeRound tr pe ck gz fc off urls s"
    show ?thesis
    proof (cases "r_err ?r \<noteq> None \<and> r_shouldRetry ?r")
      case False
      then have "rangeRounds tr c pe ck gz fc off urls w s = Some ?r"
        using True by (subst rangeRounds.simps) (auto simp: Let_def)
      moreover have "Q ?r" using stop[OF less.prems True False] .
      ultimately show ?thesis by blast
    next
      case again': True
      have w62: "w < 2 ^ 62" using True bound by simp
      have grow: "w < nextWait w" using nextWait_grows[OF less.prems(2) w62] .
      have m: "nat (c - nextWait w) < nat (c - w)" using grow True by simp
      have I': "I (nextWait w) (rangeSleep w ?r)" using again[OF less.prems True again'] .
      have "2 \<le> nextWait w" using grow less.prems(2) by simp
      from less.hyps[OF m I' this]
      obtain s' where "rangeRounds tr c pe ck gz fc off urls (nextWait w) (rangeSleep w ?r) = Some s'" "Q s'"
        by blast
      moreover have "rangeRounds tr c pe ck gz fc off urls w s =
          rangeRounds tr c pe ck gz fc off urls (nextWait w) (rangeSleep w ?r)"
        using True again' by (subst rangeRounds.simps) (simp add: Let_def)
      ultimately show ?thesis by simp
    qed
  qed
qed

lemma rangeAttempt_world:
  "calls (r_world (rangeAttempt tr rq s)) = calls (r_world s) @ [rq]"
  "sleeps (r_world (rangeAttempt tr rq s)) = sleeps (r_world s)"
  by (simp_all add: rangeAttempt_def Let_def split: prod.splits)

lemma rangeAttempt_result:
  "r_shouldRetry (rangeAttempt tr rq s) = resp_shouldRetry (tr (calls (r_world s)) rq)"
  "r_err (rangeAttempt tr rq s) = resp_err (tr (calls (r_world s)) rq)"
  by (simp_all add: rangeAttempt_def Let_def split: prod.splits)

lemma rangeAttempt_answered:
  "answered tr (calls (r_world (rangeAttempt tr rq s))) (length (calls (r_world (rangeAttempt tr rq s))) - 1)
     = tr (calls (r_world s)) rq"
  by (simp add: rangeAttempt_world answered_def)

lemma rangeSleep_simps:
  "calls (r_world (rangeSleep w s)) = calls (r_world s)"
  "sleeps (r_world (rangeSleep w s)) = sleeps (r_world s) @ [w]"
  "r_err (rangeSleep w s) = r_err s"
  "r_shouldRetry (rangeSleep w s) = r_shouldRetry s"
  "r_buffer (rangeSleep w s) = r_buffer s"
  "r_n (rangeSleep w s) = r_n s"
  by (simp_all add: rangeSleep_def)

lemma rangeRound_always_fail:
  assumes always: "\<forall>h rq. resp_shouldRetry (tr h rq) \<and> resp_err (tr h rq) \<noteq> None"
  shows "length (calls (r_world (rangeRound tr pe ck gz fc off urls s))) =
           length (calls (r_world s)) + length urls \<and>
         sleeps (r_world (rangeRound tr pe ck gz fc off urls s)) = sleeps (r_world s) \<and>
         (urls \<noteq> [] \<longrightarrow>
            r_shouldRetry (rangeRound tr pe ck gz fc off urls s) \<and>
            r_err (rangeRound tr pe ck gz fc off urls s) =
              resp_err (answered tr (calls (r_world (rangeRound tr pe ck gz fc off urls s)))
                         (length (calls (r_world (rangeRound tr pe ck gz fc off urls s))) - 1)))"
proof (induction urls arbitrary: s)
  case Nil
  then show ?case by simp
next
  case (Cons u urls)
  let ?a = "rangeAttempt tr (rangeRequest pe u ck gz fc off (int (length (r_buffer s)))) s"
  have r: "r_shouldRetry ?a" "r_err ?a \<noteq> None"
    using always by (simp_all add: rangeAttempt_result)
  have step: "rangeRound tr pe ck gz fc off (u # urls) s = rangeRound tr pe ck gz fc off urls ?a"
    using r by (simp add: Let_def)
  show ?case
  proof (cases "urls = []")
    case True
    then show ?thesis
      using r by (simp add: Let_def rangeAttempt_world rangeAttempt_result answered_def)
  next
    case False
    then show ?thesis
      unfolding step using Cons.IH[of ?a] by (simp add: rangeAttempt_world)
  qed
qed

lemma range_always_fail:
  assumes always: "\<forall>h rq. resp_shouldRetry (tr h rq) \<and> resp_err (tr h rq) \<noteq> None"
    and urls: "urls \<noteq> []" and c1: "Second < c" and c2: "c \<le> 2 ^ 62"
  shows "\<exists>s' n. rangeRounds tr c pe ck gz fc off urls Second s = Some s' \<and> 0 < n \<and>
           sleeps (r_world s') = sleeps (r_world s) @ map waitOfRound [0..<n] \<and>
           (\<forall>k<n. waitOfRound k < c) \<and> c \<le> waitOfRound n \<and>
           length (calls (r_world s')) = length (calls (r_world s)) + n * length urls \<and>
           r_err s' = resp_err (answered tr (calls (r_world s')) (length (calls (r_world s')) - 1))"
proof -
  let ?I = "\<lambda>w (s1::range_state). \<exists>n. w = waitOfRound n \<and>
           sleeps (r_world s1) = sleeps (r_world s) @ map waitOfRound [0..<n] \<and>
           (\<forall>k<n. waitOfRound k < c) \<and>
           length (calls (r_world s1)) = length (calls (r_world s)) + n * length urls \<and>
           (0 < n \<longrightarrow> r_err s1 = resp_err (answered tr (calls (r_world s1)) (length (calls (r_world s1)) - 1)))"
  let ?Q = "\<lambda>(s'::range_state). \<exists>n. 0 < n \<and>
           sleeps (r_world s') = sleeps (r_world s) @ map waitOfRound [0..<n] \<and>
           (\<forall>k<n. waitOfRound k < c) \<and> c \<le> waitOfRound n \<and>
           length (calls (r_world s')) = length (calls (r_world s)) + n * length urls \<and>
           r_err s' = resp_err (answered tr (calls (r_world s')) (length (calls (r_world s')) - 1))"
  have "\<exists>s'. rangeRounds tr c pe ck gz fc off urls Second s = Some s' \<and> ?Q s'"
  proof (rule rangeRounds_total[where I = ?I and Q = ?Q, OF c2])
    show "?I Second s" by (rule exI[of _ 0]) simp
    show "2 \<le> Second" by (simp add: Second_def)
  next
    fix w and s1 :: range_state
    assume I: "?I w s1" and "2 \<le> w" and wc: "w < c"
    then obtain n where n: "w = waitOfRound n"
        "sleeps (r_world s1) = sleeps (r_world s) @ map waitOfRound [0..<n]"
        "\<forall>k<n. waitOfRound k < c"
        "length (calls (r_world s1)) = length (calls (r_world s)) + n * length urls"
      by blast
    let ?r = "rangeRound tr pe ck gz fc off urls s1"
    note rf = rangeRound_always_fail[OF always, of pe ck gz fc off urls s1]
    have "?I (nextWait w) (rangeSleep w ?r)"
    proof (intro exI[of _ "Suc n"] conjI)
      show "nextWait w = waitOfRound (Suc n)" using n(1) by simp
      show "sleeps (r_world (rangeSleep w ?r)) = sleeps (r_world s) @ map waitOfRound [0..<Suc n]"
        using rf n(1,2) by (simp add: rangeSleep_simps)
      show "\<forall>k<Suc n. waitOfRound k < c" using n(1,3) wc by (simp add: less_Suc_eq)
      show "length (calls (r_world (rangeSleep w ?r))) = length (calls (r_world s)) + Suc n * length urls"
        using rf n(4) by (simp add: rangeSleep_simps)
      show "0 < Suc n \<longrightarrow> r_err (rangeSleep w ?r) =
          resp_err (answered tr (calls (r_world (rangeSleep w ?r))) (length (calls (r_world (rangeSleep w ?r))) - 1))"
        using rf urls by (simp add: rangeSleep_simps)
    qed
    then show "?I (nextWait w) (rangeSleep w ?r)" .
  next
    fix w and s1 :: range_state
    assume "\<not> (r_err (rangeRound tr pe ck gz fc off urls s1) \<noteq> None \<and>
                r_shouldRetry (rangeRound tr pe ck gz fc off urls s1))"
    moreover have "r_shouldRetry (rangeRound tr pe ck gz fc off urls s1)"
      and "r_err (rangeRound tr pe ck gz fc off urls s1) \<noteq> None"
      using rangeRound_always_fail[OF always, of pe ck gz fc off urls s1] urls always
      by (simp_all add: answered_def)
    ultimately show "?Q (rangeRound tr pe ck gz fc off urls s1)" by simp
  next
    fix w and s1 :: range_state
    assume I: "?I w s1" and cw: "c \<le> w"
    then obtain n where n: "w = waitOfRound n"
        "sleeps (r_world s1) = sleeps (r_world s) @ map waitOfRound [0..<n]"
        "\<forall>k<n. waitOfRound k < c"
        "length (calls (r_world s1)) = length (calls (r_world s)) + n * length urls"
        "0 < n \<longrightarrow> r_err s1 = resp_err (answered tr (calls (r_world s1)) (length (calls (r_world s1)) - 1))"
      by blast
    have "0 < n"
    proof (rule ccontr)
      assume "\<not> 0 < n"
      then have "w = Second" using n(1) by simp
      then show False using c1 cw by simp
    qed
    then show "?Q s1" using n cw by blast
  qed
  then show ?thesis by blast
qed

lemma rangeRound_terminalInv:
  assumes "terminalInv tr k0 (calls (r_world s)) (r_shouldRetry s) (r_err s)"
    and "k0 < length (calls (r_world s)) \<longrightarrow> r_shouldRetry s \<and> r_err s \<noteq> None"
  shows "terminalInv tr k0 (calls (r_world (rangeRound tr pe ck gz fc off urls s)))
           (r_shouldRetry (rangeRound tr pe ck gz fc off urls s)) (r_err (rangeRound tr pe ck gz fc off urls s))"
  using assms
proof (induction urls arbitrary: s)
  case Nil
  then show ?case by simp
next
  case (Cons u urls)
  let ?a = "rangeAttempt tr (rangeRequest pe u ck gz fc off (int (length (r_buffer s)))) s"
  have Ka: "terminalInv tr k0 (calls (r_world ?a)) (r_shouldRetry ?a) (r_err ?a)"
    using terminalInv_attempt[OF Cons.prems] by (simp add: rangeAttempt_world rangeAttempt_result)
  show ?case
  proof (cases "r_shouldRetry ?a \<and> r_err ?a \<noteq> None")
    case True
    then have "rangeRound tr pe ck gz fc off (u # urls) s = rangeRound tr pe ck gz fc off urls ?a"
      by (simp add: Let_def)
    moreover have "terminalInv tr k0 (calls (r_world (rangeRound tr pe ck gz fc off urls ?a)))
           (r_shouldRetry (rangeRound tr pe ck gz fc off urls ?a)) (r_err (rangeRound tr pe ck gz fc off urls ?a))"
      using Ka True by (intro Cons.IH) simp_all
    ultimately show ?thesis by simp
  next
    case False
    then have "rangeRound tr pe ck gz fc off (u # urls) s = ?a"
      by (auto simp: Let_def)
    then show ?thesis using Ka by simp
  qed
qed

lemma range_terminal_is_last:
  assumes run: "rangeRounds tr c pe ck gz fc off urls w s = Some s'"
    and k0: "k0 = length (calls (r_world s))"
  shows "terminalInv tr k0 (calls (r_world s')) (r_shouldRetry s') (r_err s')"
proof -
  let ?K = "\<lambda>s::range_state. terminalInv tr k0 (calls (r_world s)) (r_shouldRetry s) (r_err s)"
  let ?I = "\<lambda>s::range_state. ?K s \<and> (k0 < length (calls (r_world s)) \<longrightarrow> r_shouldRetry s \<and> r_err s \<noteq> None)"
  show ?thesis
  proof (rule rangeRounds_partial[where I = ?I and R = ?K and Q = ?K, OF run])
    show "?I s" using k0 by (auto simp: terminalInv_def)
  next
    fix s :: range_state assume "?I s"
    then show "?K (rangeRound tr pe ck gz fc off urls s)"
      using rangeRound_terminalInv by blast
  next
    fix s :: range_state and w assume "?K s" "r_err s \<noteq> None" "r_shouldRetry s"
    then show "?I (rangeSleep w s)" by (simp add: rangeSleep_simps)
  qed simp_all
qed

lemma range_terminal_round:
  assumes "w < c" "\<not> r_shouldRetry (rangeRound tr pe ck gz fc off urls s)"
  shows "rangeRounds tr c pe ck gz fc off urls w s = Some (rangeRound tr pe ck gz fc off urls s)"
  using assms by (subst rangeRounds.simps) (simp add: Let_def)

section \<open>Backoff and termination of the retry loops\<close>

lemma alwaysFailing_always:
  "\<forall>h rq. resp_shouldRetry (alwaysFailingTransport h rq) \<and> resp_err (alwaysFailingTransport h rq) \<noteq> None"
  by (simp add: alwaysFailingTransport_def)

lemma alwaysFailing_stream_run:
  "retriedStreamFetchChunkData alwaysFailingTransport 6000000000 emptyWorld [] [''a''] [] False True 0 0 =
     Some (Some (External ''connection refused''), [],
           \<lparr>calls = replicate 5 (streamRequest ''a'' [] False True 0 0),
            sleeps = [1000000000, 1500000000, 2250000000, 3375000000, 5062500000]\<rparr>)"
  by (simp add: retriedStreamFetchChunkData_def streamRounds.simps Second_def Let_def streamAttempt_def
      alwaysFailingTransport_def emptyWorld_def streamSleep_def nextWait_def i64_def signed_divide_int_def
      numeral_eq_Suc)

text \<open>
  C7. Over a transport whose every attempt is a retryable failure, with at least one
  location and a ceiling \<^verbatim>\<open>util.RetryWaitTime\<close> above one second (and at most \<open>2 ^ 62\<close>
  nanoseconds, so that the \<^verbatim>\<open>int64\<close> wait cannot wrap), both
  \<^verbatim>\<open>retriedStreamFetchChunkData\<close> and \<^verbatim>\<open>retriedFetchChunkData\<close> return: after \<open>n > 0\<close>
  rounds over all locations, having slept \<open>waitOfRound 0, \<dots>, waitOfRound (n - 1)\<close>, where
  the first wait is one second and each next wait is the previous one plus its half
  (in whole nanoseconds), all below the ceiling; they give up when the wait
  \<open>waitOfRound n\<close> has reached the ceiling, and the error returned is that of the last
  attempt.
\<close>

theorem retry_backoff_terminates:
  assumes always: "\<forall>h rq. resp_shouldRetry (tr h rq) \<and> resp_err (tr h rq) \<noteq> None"
    and urls: "urlStrings \<noteq> []"
    and c1: "Second < RetryWaitTime" and c2: "RetryWaitTime \<le> 2 ^ 62"
  shows "(\<exists>err sink' w' n.
            retriedStreamFetchChunkData tr RetryWaitTime w writer urlStrings cipherKey isGzipped isFullChunk offset size'
              = Some (err, sink', w') \<and>
            0 < n \<and> sleeps w' = sleeps w @ map waitOfRound [0..<n] \<and> waitOfRound 0 = Second \<and>
            (\<forall>k<n. waitOfRound k < RetryWaitTime \<and> waitOfRound (Suc k) = waitOfRound k + waitOfRound k div 2) \<and>
            RetryWaitTime \<le> waitOfRound n \<and>
            length (calls w') = length (calls w) + n * length urlStrings \<and>
            err \<noteq> None \<and> err = resp_err (answered tr (calls w') (length (calls w') - 1))) \<and>
         (\<exists>m err buffer' w' n.
            retriedFetchChunkData tr RetryWaitTime PathEscape w buffer urlStrings cipherKey isGzipped isFullChunk offset
              = Some (m, err, buffer', w') \<and>
            0 < n \<and> sleeps w' = sleeps w @ map waitOfRound [0..<n] \<and> waitOfRound 0 = Second \<and>
            (\<forall>k<n. waitOfRound k < RetryWaitTime \<and> waitOfRound (Suc k) = waitOfRound k + waitOfRound k div 2) \<and>
            RetryWaitTime \<le> waitOfRound n \<and>
            length (calls w') = length (calls w) + n * length urlStrings \<and>
            err \<noteq> None \<and> err = resp_err (answered tr (calls w') (length (calls w') - 1)))"
proof -
  have factor: "\<forall>k<n. waitOfRound k < RetryWaitTime \<and> waitOfRound (Suc k) = waitOfRound k + waitOfRound k div 2"
    if "\<forall>k<n. waitOfRound k < RetryWaitTime" for n
  proof (intro allI impI conjI)
    fix k assume k: "k < n"
    show "waitOfRound k < RetryWaitTime" using that k by simp
    have "\<forall>j\<le>k. waitOfRound j < 2 ^ 62"
    proof (intro allI impI)
      fix j assume "j \<le> k"
      then have "waitOfRound j < RetryWaitTime" using that k by simp
      then show "waitOfRound j < 2 ^ 62" using c2 by simp
    qed
    then show "waitOfRound (Suc k) = waitOfRound k + waitOfRound k div 2"
      by (rule waitOfRound_factor)
  qed
  have nonfail: "resp_err (answered tr cs i) \<noteq> None" for cs i
    using always by (simp add: answered_def)
  show ?thesis
  proof (intro conjI)
    let ?s0 = "\<lparr>s_world = w, s_sink = writer, s_totalWritten = 0, s_shouldRetry = False, s_err = None\<rparr>"
    from stream_always_fail[OF always urls c1 c2, of cipherKey isGzipped isFullChunk offset size' ?s0]
    obtain s' n where r: "streamRounds tr RetryWaitTime cipherKey isGzipped isFullChunk offset size' urlStrings Second ?s0 = Some s'"
      "0 < n" "sleeps (s_world s') = sleeps w @ map waitOfRound [0..<n]"
      "\<forall>k<n. waitOfRound k < RetryWaitTime" "RetryWaitTime \<le> waitOfRound n"
      "length (calls (s_world s')) = length (calls w) + n * length urlStrings"
      "s_err s' = resp_err (answered tr (calls (s_world s')) (length (calls (s_world s')) - 1))"
      by auto
    have "retriedStreamFetchChunkData tr RetryWaitTime w writer urlStrings cipherKey isGzipped isFullChunk offset size'
              = Some (s_err s', s_sink s', s_world s')"
      using r(1) by (simp add: retriedStreamFetchChunkData_def)
    moreover have "s_err s' \<noteq> None" using r(7) nonfail by simp
    ultimately show "\<exists>err sink' w' n.
            retriedStreamFetchChunkData tr RetryWaitTime w writer urlStrings cipherKey isGzipped isFullChunk offset size'
              = Some (err, sink', w') \<and>
            0 < n \<and> sleeps w' = sleeps w @ map waitOfRound [0..<n] \<and> waitOfRound 0 = Second \<and>
            (\<forall>k<n. waitOfRound k < RetryWaitTime \<and> waitOfRound (Suc k) = waitOfRound k + waitOfRound k div 2) \<and>
            RetryWaitTime \<le> waitOfRound n \<and>
            length (calls w') = length (calls w) + n * length urlStrings \<and>
            err \<noteq> None \<and> err = resp_err (answered tr (calls w') (length (calls w') - 1))"
      using r(2,3,5,6,7) factor[OF r(4)] by (intro exI[of _ "s_err s'"] exI[of _ "s_sink s'"] exI[of _ "s_world s'"] exI[of _ n]) simp
  next
    let ?s0 = "\<lparr>r_world = w, r_buffer = buffer, r_n = 0, r_shouldRetry = False, r_err = None\<rparr>"
    from range_always_fail[OF always urls c1 c2, of PathEscape cipherKey isGzipped isFullChunk offset ?s0]
    obtain s' n where r: "rangeRounds tr RetryWaitTime PathEscape cipherKey isGzipped isFullChunk offset urlStrings Second ?s0 = Some s'"
      "0 < n" "sleeps (r_world s') = sleeps w @ map waitOfRound [0..<n]"
      "\<forall>k<n. waitOfRound k < RetryWaitTime" "RetryWaitTime \<le> waitOfRound n"
      "length (calls (r_world s')) = length (calls w) + n * length urlStrings"
      "r_err s' = resp_err (answered tr (calls (r_world s')) (length (calls (r_world s')) - 1))"
      by auto
    have "retriedFetchChunkData tr RetryWaitTime PathEscape w buffer urlStrings cipherKey isGzipped isFullChunk offset
              = Some (r_n s', r_err s', r_buffer s', r_world s')"
      using r(1) by (simp add: retriedFetchChunkData_def)
    moreover have "r_err s' \<noteq> None" using r(7) nonfail by simp
    ultimately show "\<exists>m err buffer' w' n.
            retriedFetchChunkData tr RetryWaitTime PathEscape w buffer urlStrings cipherKey isGzipped isFullChunk offset
              = Some (m, err, buffer', w') \<and>
            0 < n \<and> sleeps w' = sleeps w @ map waitOfRound [0..<n] \<and> waitOfRound 0 = Second \<and>
            (\<forall>k<n. waitOfRound k < RetryWaitTime \<and> waitOfRound (Suc k) = waitOfRound k + waitOfRound k div 2) \<and>
            RetryWaitTime \<le> waitOfRound n \<and>
            length (calls w') = length (calls w) + n * length urlStrings \<and>
            err \<noteq> None \<and> err = resp_err (answered tr (calls w') (length (calls w') - 1))"
      using r(2,3,5,6,7) factor[OF r(4)]
      by (intro exI[of _ "r_n s'"] exI[of _ "r_err s'"] exI[of _ "r_buffer s'"] exI[of _ "r_world s'"] exI[of _ n]) simp
  qed
qed

theorem retry_backoff_terminates_witness:
  "(\<forall>h rq. resp_shouldRetry (alwaysFailingTransport h rq) \<and> resp_err (alwaysFailingTransport h rq) \<noteq> None) \<and>
   [''a''] \<noteq> ([] :: string list) \<and> Second < 6000000000 \<and> (6000000000 :: int) \<le> 2 ^ 62 \<and>
   retriedStreamFetchChunkData alwaysFailingTransport 6000000000 emptyWorld [] [''a''] [] False True 0 0 =
     Some (Some (External ''connection refused''), [],
           \<lparr>calls = replicate 5 (streamRequest ''a'' [] False True 0 0),
            sleeps = [1000000000, 1500000000, 2250000000, 3375000000, 5062500000]\<rparr>) \<and>
   (\<exists>m err buffer' w' n.
      retriedFetchChunkData alwaysFailingTransport 6000000000 (\<lambda>u. u) emptyWorld [0, 0] [''a''] [] False False 0
        = Some (m, err, buffer', w') \<and>
      0 < n \<and> sleeps w' = sleeps emptyWorld @ map waitOfRound [0..<n] \<and> waitOfRound 0 = Second \<and>
      (\<forall>k<n. waitOfRound k < 6000000000 \<and> waitOfRound (Suc k) = waitOfRound k + waitOfRound k div 2) \<and>
      6000000000 \<le> waitOfRound n \<and>
      length (calls w') = length (calls emptyWorld) + n * length [''a''] \<and>
      err \<noteq> None \<and> err = resp_err (answered alwaysFailingTransport (calls w') (length (calls w') - 1)))"
proof -
  have h2: "[''a''] \<noteq> ([] :: string list)" by simp
  have h3: "Second < 6000000000" by (simp add: Second_def)
  have h4: "(6000000000 :: int) \<le> 2 ^ 62" by simp
  from retry_backoff_terminates[OF alwaysFailing_always h2 h3 h4, THEN conjunct2,
      of "\<lambda>u. u" emptyWorld "[0, 0]" "[]" False False 0]
  show ?thesis using alwaysFailing_always h2 h3 h4 alwaysFailing_stream_run by blast
qed

section \<open>A terminal attempt ends the fetch\<close>

lemma terminalInv_last:
  assumes K: "terminalInv tr k0 cs sr e"
    and i: "k0 \<le> i" "i < length cs" "\<not> resp_shouldRetry (answered tr cs i)"
  shows "Suc i = length cs \<and> e = resp_err (answered tr cs i)"
proof -
  have "\<not> Suc i < length cs" using K i unfolding terminalInv_def by blast
  then have l: "Suc i = length cs" using i(2) by simp
  then have "k0 < length cs" "length cs - 1 = i" using i(1) by simp_all
  then show ?thesis using K l unfolding terminalInv_def by simp
qed

lemma stream_fetch_returns:
  assumes "c \<le> 2 ^ 62" "2 \<le> w"
  shows "\<exists>s'. streamRounds tr c ck gz fc off sz urls w s = Some s'"
  using streamRounds_total[where I = "\<lambda>_ _. True" and Q = "\<lambda>_. True", OF assms(1) _ assms(2)]
  by simp

lemma range_fetch_returns:
  assumes "c \<le> 2 ^ 62" "2 \<le> w"
  shows "\<exists>s'. rangeRounds tr c pe ck gz fc off urls w s = Some s'"
  using rangeRounds_total[where I = "\<lambda>_ _. True" and Q = "\<lambda>_. True", OF assms(1) _ assms(2)]
  by simp

text \<open>
  C8. In both retry loops an attempt whose answer has \<open>shouldRetry = false\<close> is the last
  request of the session: no later location of the round and no later round is tried,
  and the fetch returns that attempt's error (or success). With a ceiling of at most
  \<open>2 ^ 62\<close> nanoseconds both fetches do return; and when the first location's answer
  has \<open>shouldRetry = false\<close> (and the ceiling is above one second, so that a round is
  made at all) the fetch returns after that single request, with its error.
\<close>

theorem terminal_attempt_stops_fetch:
  "(RetryWaitTime \<le> 2 ^ 62 \<longrightarrow>
      (\<exists>r. retriedStreamFetchChunkData tr RetryWaitTime w writer urlStrings cipherKey isGzipped isFullChunk offset size' = Some r) \<and>
      (\<exists>r. retriedFetchChunkData tr RetryWaitTime PathEscape w buffer urlStrings cipherKey isGzipped isFullChunk offset = Some r)) \<and>
   (retriedStreamFetchChunkData tr RetryWaitTime w writer urlStrings cipherKey isGzipped isFullChunk offset size' = Some (err, sink', w') \<longrightarrow>
      (\<forall>i. length (calls w) \<le> i \<and> i < length (calls w') \<and> \<not> resp_shouldRetry (answered tr (calls w') i) \<longrightarrow>
           Suc i = length (calls w') \<and> err = resp_err (answered tr (calls w') i))) \<and>
   (retriedFetchChunkData tr RetryWaitTime PathEscape w buffer urlStrings cipherKey isGzipped isFullChunk offset = Some (n, err2, buffer', w2) \<longrightarrow>
      (\<forall>i. length (calls w) \<le> i \<and> i < length (calls w2) \<and> \<not> resp_shouldRetry (answered tr (calls w2) i) \<longrightarrow>
           Suc i = length (calls w2) \<and> err2 = resp_err (answered tr (calls w2) i))) \<and>
   (Second < RetryWaitTime \<and>
    \<not> resp_shouldRetry (tr (calls w) (streamRequest urlString cipherKey isGzipped isFullChunk offset size')) \<longrightarrow>
      (\<exists>sink1. retriedStreamFetchChunkData tr RetryWaitTime w writer (urlString # urlStrings) cipherKey isGzipped isFullChunk offset size' =
         Some (resp_err (tr (calls w) (streamRequest urlString cipherKey isGzipped isFullChunk offset size')), sink1,
               w\<lparr>calls := calls w @ [streamRequest urlString cipherKey isGzipped isFullChunk offset size']\<rparr>))) \<and>
   (Second < RetryWaitTime \<and>
    \<not> resp_shouldRetry (tr (calls w) (rangeRequest PathEscape urlString cipherKey isGzipped isFullChunk offset (int (length buffer)))) \<longrightarrow>
      (\<exists>n1 buffer1. retriedFetchChunkData tr RetryWaitTime PathEscape w buffer (urlString # urlStrings) cipherKey isGzipped isFullChunk offset =
         Some (n1, resp_err (tr (calls w) (rangeRequest PathEscape urlString cipherKey isGzipped isFullChunk offset (int (length buffer)))), buffer1,
               w\<lparr>calls := calls w @ [rangeRequest PathEscape urlString cipherKey isGzipped isFullChunk offset (int (length buffer))]\<rparr>)))"
proof (intro conjI impI)
  assume c: "RetryWaitTime \<le> 2 ^ 62"
  have "2 \<le> Second" by (simp add: Second_def)
  from stream_fetch_returns[OF c this]
  obtain s1 where "streamRounds tr RetryWaitTime cipherKey isGzipped isFullChunk offset size' urlStrings Second
      \<lparr>s_world = w, s_sink = writer, s_totalWritten = 0, s_shouldRetry = False, s_err = None\<rparr> = Some s1"
    by blast
  then show "\<exists>r. retriedStreamFetchChunkData tr RetryWaitTime w writer urlStrings cipherKey isGzipped isFullChunk offset size' = Some r"
    by (simp add: retriedStreamFetchChunkData_def)
  from range_fetch_returns[OF c \<open>2 \<le> Second\<close>]
  obtain s2 where "rangeRounds tr RetryWaitTime PathEscape cipherKey isGzipped isFullChunk offset urlStrings Second
      \<lparr>r_world = w, r_buffer = buffer, r_n = 0, r_shouldRetry = False, r_err = None\<rparr> = Some s2"
    by blast
  then show "\<exists>r. retriedFetchChunkData tr RetryWaitTime PathEscape w buffer urlStrings cipherKey isGzipped isFullChunk offset = Some r"
    by (simp add: retriedFetchChunkData_def)
next
  assume run: "retriedStreamFetchChunkData tr RetryWaitTime w writer urlStrings cipherKey isGzipped isFullChunk offset size' = Some (err, sink', w')"
  let ?s0 = "\<lparr>s_world = w, s_sink = writer, s_totalWritten = 0, s_shouldRetry = False, s_err = None\<rparr>"
  from run obtain s where rounds: "streamRounds tr RetryWaitTime cipherKey isGzipped isFullChunk offset size' urlStrings Second ?s0 = Some s"
    and res: "err = s_err s" "w' = s_world s"
    by (auto simp: retriedStreamFetchChunkData_def split: option.splits)
  have K: "terminalInv tr (length (calls w)) (calls w') (s_shouldRetry s) err"
    using stream_terminal_is_last[OF rounds, of "length (calls w)"] res by simp
  show "\<forall>i. length (calls w) \<le> i \<and> i < length (calls w') \<and> \<not> resp_shouldRetry (answered tr (calls w') i) \<longrightarrow>
           Suc i = length (calls w') \<and> err = resp_err (answered tr (calls w') i)"
    using terminalInv_last[OF K] by blast
next
  assume run: "retriedFetchChunkData tr RetryWaitTime PathEscape w buffer urlStrings cipherKey isGzipped isFullChunk offset = Some (n, err2, buffer', w2)"
  let ?s0 = "\<lparr>r_world = w, r_buffer = buffer, r_n = 0, r_shouldRetry = False, r_err = None\<rparr>"
  from run obtain s where rounds: "rangeRounds tr RetryWaitTime PathEscape cipherKey isGzipped isFullChunk offset urlStrings Second ?s0 = Some s"
    and res: "err2 = r_err s" "w2 = r_world s"
    by (auto simp: retriedFetchChunkData_def split: option.splits)
  have K: "terminalInv tr (length (calls w)) (calls w2) (r_shouldRetry s) err2"
    using range_terminal_is_last[OF rounds, of "length (calls w)"] res by simp
  show "\<forall>i. length (calls w) \<le> i \<and> i < length (calls w2) \<and> \<not> resp_shouldRetry (answered tr (calls w2) i) \<longrightarrow>
           Suc i = length (calls w2) \<and> err2 = resp_err (answered tr (calls w2) i)"
    using terminalInv_last[OF K] by blast
next
  assume a: "Second < RetryWaitTime \<and>
    \<not> resp_shouldRetry (tr (calls w) (streamRequest urlString cipherKey isGzipped isFullChunk offset size'))"
  let ?s0 = "\<lparr>s_world = w, s_sink = writer, s_totalWritten = 0, s_shouldRetry = False, s_err = None\<rparr>"
  let ?rq = "streamRequest urlString cipherKey isGzipped isFullChunk offset size'"
  let ?a = "streamAttempt tr ?rq ?s0"
  have nr: "\<not> s_shouldRetry ?a" using a by (simp add: streamAttempt_result)
  then have round: "streamRound tr cipherKey isGzipped isFullChunk offset size' (urlString # urlStrings) ?s0 = ?a"
    by (simp add: Let_def)
  have "streamRounds tr RetryWaitTime cipherKey isGzipped isFullChunk offset size' (urlString # urlStrings) Second ?s0 = Some ?a"
    using stream_terminal_round[of Second RetryWaitTime tr cipherKey isGzipped isFullChunk offset size' "urlString # urlStrings" ?s0]
      a nr round by simp
  then have "retriedStreamFetchChunkData tr RetryWaitTime w writer (urlString # urlStrings) cipherKey isGzipped isFullChunk offset size' =
      Some (s_err ?a, s_sink ?a, s_world ?a)"
    by (simp add: retriedStreamFetchChunkData_def)
  moreover have "s_err ?a = resp_err (tr (calls w) ?rq)" by (simp add: streamAttempt_result)
  moreover have "s_world ?a = w\<lparr>calls := calls w @ [?rq]\<rparr>"
    by (simp add: streamAttempt_def Let_def split: prod.splits)
  ultimately show "\<exists>sink1. retriedStreamFetchChunkData tr RetryWaitTime w writer (urlString # urlStrings) cipherKey isGzipped isFullChunk offset size' =
         Some (resp_err (tr (calls w) ?rq), sink1, w\<lparr>calls := calls w @ [?rq]\<rparr>)"
    by simp
next
  assume a: "Second < RetryWaitTime \<and>
    \<not> resp_shouldRetry (tr (calls w) (rangeRequest PathEscape urlString cipherKey isGzipped isFullChunk offset (int (length buffer))))"
  let ?s0 = "\<lparr>r_world = w, r_buffer = buffer, r_n = 0, r_shouldRetry = False, r_err = None\<rparr>"
  let ?rq = "rangeRequest PathEscape urlString cipherKey isGzipped isFullChunk offset (int (length buffer))"
  let ?a = "rangeAttempt tr ?rq ?s0"
  have nr: "\<not> r_shouldRetry ?a" using a by (simp add: rangeAttempt_result)
  then have round: "rangeRound tr PathEscape cipherKey isGzipped isFullChunk offset (urlString # urlStrings) ?s0 = ?a"
    by (simp add: Let_def)
  have "rangeRounds tr RetryWaitTime PathEscape cipherKey isGzipped isFullChunk offset (urlString # urlStrings) Second ?s0 = Some ?a"
    using range_terminal_round[of Second RetryWaitTime tr PathEscape cipherKey isGzipped isFullChunk offset "urlString # urlStrings" ?s0]
      a nr round by simp
  then have "retriedFetchChunkData tr RetryWaitTime PathEscape w buffer (urlString # urlStrings) cipherKey isGzipped isFullChunk offset =
      Some (r_n ?a, r_err ?a, r_buffer ?a, r_world ?a)"
    by (simp add: retriedFetchChunkData_def)
  moreover have "r_err ?a = resp_err (tr (calls w) ?rq)" by (simp add: rangeAttempt_result)
  moreover have "r_world ?a = w\<lparr>calls := calls w @ [?rq]\<rparr>"
    by (simp add: rangeAttempt_def Let_def split: prod.splits)
  ultimately show "\<exists>n1 buffer1. retriedFetchChunkData tr RetryWaitTime PathEscape w buffer (urlString # urlStrings) cipherKey isGzipped isFullChunk offset =
         Some (n1, resp_err (tr (calls w) ?rq), buffer1, w\<lparr>calls := calls w @ [?rq]\<rparr>)"
    by simp
qed

lemma terminal_stream_run:
  "retriedStreamFetchChunkData (exampleTransport 2) 6000000000 emptyWorld [] [''a'', ''b''] [] False True 0 0 =
     Some (Some (External ''not found''), [], \<lparr>calls = [streamRequest ''a'' [] False True 0 0], sleeps = []\<rparr>)"
  by (simp add: retriedStreamFetchChunkData_def streamRounds.simps Second_def Let_def streamAttempt_def
      exampleTransport_def emptyWorld_def streamRequest_def)

lemma terminal_range_run:
  "retriedFetchChunkData (exampleTransport 2) 6000000000 (\<lambda>u. u) emptyWorld [0, 0] [''a'', ''b''] [] False True 0 =
     Some (0, Some (External ''not found''), [0, 0],
           \<lparr>calls = [rangeRequest (\<lambda>u. u) ''a'' [] False True 0 2], sleeps = []\<rparr>)"
  by (simp add: retriedFetchChunkData_def rangeRounds.simps Second_def Let_def rangeAttempt_def
      exampleTransport_def emptyWorld_def rangeRequest_def)

theorem terminal_attempt_stops_fetch_witness:
  "(6000000000 :: int) \<le> 2 ^ 62 \<and>
   retriedStreamFetchChunkData (exampleTransport 2) 6000000000 emptyWorld [] [''a'', ''b''] [] False True 0 0 =
     Some (Some (External ''not found''), [], \<lparr>calls = [streamRequest ''a'' [] False True 0 0], sleeps = []\<rparr>) \<and>
   retriedFetchChunkData (exampleTransport 2) 6000000000 (\<lambda>u. u) emptyWorld [0, 0] [''a'', ''b''] [] False True 0 =
     Some (0, Some (External ''not found''), [0, 0],
           \<lparr>calls = [rangeRequest (\<lambda>u. u) ''a'' [] False True 0 2], sleeps = []\<rparr>) \<and>
   length (calls emptyWorld) \<le> 0 \<and>
   \<not> resp_shouldRetry (answered (exampleTransport 2) [streamRequest ''a'' [] False True 0 0] 0) \<and>
   \<not> resp_shouldRetry (answered (exampleTransport 2) [rangeRequest (\<lambda>u. u) ''a'' [] False True 0 2] 0) \<and>
   Some (External ''not found'') = resp_err (answered (exampleTransport 2) [streamRequest ''a'' [] False True 0 0] 0) \<and>
   Some (External ''not found'') = resp_err (answered (exampleTransport 2) [rangeRequest (\<lambda>u. u) ''a'' [] False True 0 2] 0) \<and>
   Second < 6000000000 \<and>
   \<not> resp_shouldRetry (exampleTransport 2 (calls emptyWorld) (streamRequest ''a'' [] False True 0 0)) \<and>
   \<not> resp_shouldRetry (exampleTransport 2 (calls emptyWorld) (rangeRequest (\<lambda>u. u) ''a'' [] False True 0 (int (length [0::byte, 0])))) \<and>
   (\<exists>sink1. retriedStreamFetchChunkData (exampleTransport 2) 6000000000 emptyWorld [] (''a'' # [''a'', ''b'']) [] False True 0 0 =
      Some (resp_err (exampleTransport 2 (calls emptyWorld) (streamRequest ''a'' [] False True 0 0)), sink1,
            emptyWorld\<lparr>calls := calls emptyWorld @ [streamRequest ''a'' [] False True 0 0]\<rparr>)) \<and>
   (\<exists>n1 buffer1. retriedFetchChunkData (exampleTransport 2) 6000000000 (\<lambda>u. u) emptyWorld [0, 0] (''a'' # [''a'', ''b'']) [] False True 0 =
      Some (n1, resp_err (exampleTransport 2 (calls emptyWorld) (rangeRequest (\<lambda>u. u) ''a'' [] False True 0 (int (length [0::byte, 0])))), buffer1,
            emptyWorld\<lparr>calls := calls emptyWorld @ [rangeRequest (\<lambda>u. u) ''a'' [] False True 0 (int (length [0::byte, 0]))]\<rparr>))"
proof -
  have h1: "(6000000000 :: int) \<le> 2 ^ 62" by simp
  have h2: "Second < 6000000000" by (simp add: Second_def)
  have t1: "\<not> resp_shouldRetry (exampleTransport 2 (calls emptyWorld) (streamRequest ''a'' [] False True 0 0))"
    by (simp add: exampleTransport_def streamRequest_def)
  have t2: "\<not> resp_shouldRetry (exampleTransport 2 (calls emptyWorld) (rangeRequest (\<lambda>u. u) ''a'' [] False True 0 (int (length [0::byte, 0]))))"
    by (simp add: exampleTransport_def rangeRequest_def)
  note T = terminal_attempt_stops_fetch[of 6000000000 "exampleTransport 2" emptyWorld "[]" "[''a'', ''b'']" "[]" False True 0 0
      "\<lambda>u. u" "[0, 0]" "Some (External ''not found'')" "[]" "\<lparr>calls = [streamRequest ''a'' [] False True 0 0], sleeps = []\<rparr>"
      0 "Some (External ''not found'')" "[0, 0]" "\<lparr>calls = [rangeRequest (\<lambda>u. u) ''a'' [] False True 0 2], sleeps = []\<rparr>" "''a''"]
  have a1: "\<not> resp_shouldRetry (answered (exampleTransport 2) [streamRequest ''a'' [] False True 0 0] 0)"
    and a2: "\<not> resp_shouldRetry (answered (exampleTransport 2) [rangeRequest (\<lambda>u. u) ''a'' [] False True 0 2] 0)"
    and a3: "Some (External ''not found'') = resp_err (answered (exampleTransport 2) [streamRequest ''a'' [] False True 0 0] 0)"
    and a4: "Some (External ''not found'') = resp_err (answered (exampleTransport 2) [rangeRequest (\<lambda>u. u) ''a'' [] False True 0 2] 0)"
    by (simp_all add: answered_def exampleTransport_def streamRequest_def rangeRequest_def)
  have e: "length (calls emptyWorld) \<le> 0" by (simp add: emptyWorld_def)
  show ?thesis
    using T h1 h2 t1 t2 a1 a2 a3 a4 e terminal_stream_run terminal_range_run by simp
qed

section \<open>The byte count and the buffer of the range fetch\<close>

lemma rangeOnData_step:
  assumes "n \<le> length buf"
  shows "rangeOnData (buf, int n) d =
           (take (length buf) (take n buf @ d @ drop (n + length d) buf), int (min (length buf) (n + length d)))"
proof (cases "n < length buf")
  case True
  then show ?thesis
    by (auto simp: copy_def Let_def min_def drop_take nat_add_distrib add.commute)
next
  case False
  then have "n = length buf" using assms by simp
  then show ?thesis by simp
qed

lemma take_own_length: "take (length xs) (xs @ ys) = xs"
  by simp

lemma rangeOnData_foldl:
  assumes "n \<le> length buf"
  shows "foldl rangeOnData (buf, int n) ds =
           (take (length buf) (take n buf @ concat ds @ drop (n + length (concat ds)) buf),
            int (min (length buf) (n + length (concat ds))))"
  using assms
proof (induction ds arbitrary: buf n)
  case Nil
  then show ?case by (simp add: min_def)
next
  case (Cons d ds)
  let ?buf1 = "take (length buf) (take n buf @ d @ drop (n + length d) buf)"
  let ?n1 = "min (length buf) (n + length d)"
  have len1: "length ?buf1 = length buf" using Cons.prems by (simp add: min_def)
  have n1: "?n1 \<le> length ?buf1" using len1 by simp
  have step: "foldl rangeOnData (buf, int n) (d # ds) = foldl rangeOnData (?buf1, int ?n1) ds"
    using rangeOnData_step[OF Cons.prems] by simp
  have IH: "foldl rangeOnData (?buf1, int ?n1) ds =
      (take (length ?buf1) (take ?n1 ?buf1 @ concat ds @ drop (?n1 + length (concat ds)) ?buf1),
       int (min (length ?buf1) (?n1 + length (concat ds))))"
    by (rule Cons.IH[OF n1])
  show ?case
  proof (cases "n + length d \<le> length buf")
    case True
    then have b1: "?buf1 = take n buf @ d @ drop (n + length d) buf" using Cons.prems by simp
    have m: "?n1 = n + length d" using True by simp
    have t: "take ?n1 ?buf1 = take n buf @ d" unfolding m b1 using Cons.prems by simp
    have d': "drop (?n1 + length (concat ds)) ?buf1 = drop (n + length d + length (concat ds)) buf"
      unfolding m b1 using Cons.prems by (simp add: add.commute add.left_commute)
    show ?thesis
      unfolding step IH len1 t d' using True by (simp add: min_def add.assoc)
  next
    case False
    then have m: "?n1 = length buf" by simp
    have b1: "?buf1 = take (length buf) (take n buf @ d)" using False Cons.prems by simp
    have t: "take ?n1 ?buf1 = ?buf1" using len1 m by simp
    have l1: "take (length ?buf1) (take ?n1 ?buf1 @ concat ds @ drop (?n1 + length (concat ds)) ?buf1) = ?buf1"
      by (simp only: t take_own_length)
    have l2: "min (length ?buf1) (?n1 + length (concat ds)) = length buf"
      unfolding len1 m by simp
    have lhs: "foldl rangeOnData (buf, int n) (d # ds) = (?buf1, int (length buf))"
      unfolding step IH l1 l2 ..
    have r1: "take (length buf) (take n buf @ concat (d # ds) @ drop (n + length (concat (d # ds))) buf) = ?buf1"
      using False Cons.prems unfolding b1 by simp
    have r2: "min (length buf) (n + length (concat (d # ds))) = length buf"
      using False by simp
    show ?thesis unfolding lhs r1 r2 ..
  qed
qed

lemma rangeAttempt_buffer:
  "r_buffer (rangeAttempt tr rq s) =
     take (length (r_buffer s))
       (concat (resp_data (tr (calls (r_world s)) rq)) @
        drop (length (concat (resp_data (tr (calls (r_world s)) rq)))) (r_buffer s))"
  "r_n (rangeAttempt tr rq s) =
     int (min (length (r_buffer s)) (length (concat (resp_data (tr (calls (r_world s)) rq)))))"
  using rangeOnData_foldl[of 0 "r_buffer s" "resp_data (tr (calls (r_world s)) rq)"]
  by (simp_all add: rangeAttempt_def Let_def)

lemma rangeRound_invariant:
  assumes "I s"
    and "\<And>s u. I s \<Longrightarrow> I (rangeAttempt tr (rangeRequest pe u ck gz fc off (int (length (r_buffer s)))) s)"
  shows "I (rangeRound tr pe ck gz fc off urls s)"
  using assms(1)
proof (induction urls arbitrary: s)
  case Nil
  then show ?case by simp
next
  case (Cons u urls)
  then show ?case using assms(2) by (simp add: Let_def)
qed

lemma rangeAttempt_inv:
  assumes "rangeInv tr buffer0 k0 s"
  shows "rangeInv tr buffer0 k0 (rangeAttempt tr rq s)"
proof -
  let ?D = "concat (resp_data (tr (calls (r_world s)) rq))"
  let ?a = "rangeAttempt tr rq s"
  have len: "length (r_buffer s) = length buffer0" and k0: "k0 \<le> length (calls (r_world s))"
    using assms by (simp_all add: rangeInv_def)
  have cs: "calls (r_world ?a) = calls (r_world s) @ [rq]" by (simp add: rangeAttempt_world)
  have D: "delivered tr (calls (r_world ?a)) (length (calls (r_world ?a)) - 1) = ?D"
    by (simp add: cs delivered_append_new)
  have n: "r_n ?a = int (min (length buffer0) (length ?D))"
    by (simp add: rangeAttempt_buffer len)
  have b: "r_buffer ?a = take (length buffer0) (?D @ drop (length ?D) (r_buffer s))"
    by (simp add: rangeAttempt_buffer len)
  have tk: "take (min (length buffer0) (length ?D)) (r_buffer ?a) = take (min (length buffer0) (length ?D)) ?D"
    unfolding b by (simp add: min_def)
  have l: "length (r_buffer ?a) = length buffer0"
    unfolding b using len by (simp add: min_def)
  show ?thesis
    unfolding rangeInv_def D using l k0 n tk by (simp add: cs)
qed

lemma range_session_inv:
  assumes run: "rangeRounds tr c pe ck gz fc off urls w s = Some s'"
    and init: "rangeInv tr buffer0 k0 s"
  shows "rangeInv tr buffer0 k0 s'"
proof (rule rangeRounds_partial[where I = "rangeInv tr buffer0 k0" and R = "rangeInv tr buffer0 k0"
      and Q = "rangeInv tr buffer0 k0", OF run init])
  fix s :: range_state assume "rangeInv tr buffer0 k0 s"
  then show "rangeInv tr buffer0 k0 (rangeRound tr pe ck gz fc off urls s)"
    by (rule rangeRound_invariant) (rule rangeAttempt_inv)
next
  fix s :: range_state and w assume "rangeInv tr buffer0 k0 s"
  then show "rangeInv tr buffer0 k0 (rangeSleep w s)"
    unfolding rangeInv_def rangeSleep_simps .
qed

lemma rangeAttempt_tail:
  "drop (nat (r_n (rangeAttempt tr rq s))) (r_buffer (rangeAttempt tr rq s)) =
   drop (nat (r_n (rangeAttempt tr rq s))) (r_buffer s)"
  by (simp add: rangeAttempt_buffer min_def)

lemma retried_range_result:
  assumes run: "retriedFetchChunkData tr c pe w buffer urls ck gz fc off = Some (n, err, buffer', w')"
  shows "0 \<le> n \<and> n \<le> int (length buffer) \<and> length buffer' = length buffer \<and>
         (length (calls w') = length (calls w) \<longrightarrow> n = 0 \<and> buffer' = buffer) \<and>
         (length (calls w') \<noteq> length (calls w) \<longrightarrow>
            n = int (min (length buffer) (length (delivered tr (calls w') (length (calls w') - 1)))) \<and>
            take (nat n) buffer' = take (nat n) (delivered tr (calls w') (length (calls w') - 1)))"
proof -
  let ?s0 = "\<lparr>r_world = w, r_buffer = buffer, r_n = 0, r_shouldRetry = False, r_err = None\<rparr>"
  from run obtain s where rounds: "rangeRounds tr c pe ck gz fc off urls Second ?s0 = Some s"
    and res: "n = r_n s" "buffer' = r_buffer s" "w' = r_world s"
    by (auto simp: retriedFetchChunkData_def split: option.splits)
  have "rangeInv tr buffer (length (calls w)) ?s0" by (simp add: rangeInv_def)
  from range_session_inv[OF rounds this]
  have inv: "rangeInv tr buffer (length (calls w)) s" .
  show ?thesis
  proof (cases "length (calls w') = length (calls w)")
    case True
    then show ?thesis using inv unfolding rangeInv_def res by auto
  next
    case False
    then show ?thesis using inv unfolding rangeInv_def res by auto
  qed
qed

text \<open>
  C10, as the source has it. The count returned by \<^verbatim>\<open>retriedFetchChunkData\<close> and by
  \<^verbatim>\<open>fetchChunkRange\<close> satisfies \<open>0 \<le> n \<le> len(buffer)\<close>, and the buffer keeps its length:
  what is delivered beyond its capacity is dropped. Within one attempt the count starts
  at zero and only \<open>buffer[0:n]\<close> is written. On return the count and the bytes
  \<open>buffer[0:n]\<close> are those of the final attempt alone (\<open>n\<close> is the smaller of the
  buffer's length and the number of bytes that attempt delivered, and \<open>buffer[0:n]\<close>
  are its first \<open>n\<close> bytes); with no attempt made, the count is zero and the buffer
  untouched. Nothing is said of the bytes from index \<open>n\<close> on, which an earlier
  attempt may have written.
\<close>

theorem range_fetch_count_and_prefix:
  "(retriedFetchChunkData tr RetryWaitTime PathEscape w buffer urlStrings cipherKey isGzipped isFullChunk offset
      = Some (n, err, buffer', w') \<longrightarrow>
      0 \<le> n \<and> n \<le> int (length buffer) \<and> length buffer' = length buffer \<and>
      (length (calls w') = length (calls w) \<longrightarrow> n = 0 \<and> buffer' = buffer) \<and>
      (length (calls w') \<noteq> length (calls w) \<longrightarrow>
         n = int (min (length buffer) (length (delivered tr (calls w') (length (calls w') - 1)))) \<and>
         take (nat n) buffer' = take (nat n) (delivered tr (calls w') (length (calls w') - 1)))) \<and>
   (fetchChunkRange tr RetryWaitTime PathEscape w buffer lookupFileIdFn fileId cipherKey isGzipped offset
      = Some (n2, err2, buffer2, w2) \<longrightarrow>
      0 \<le> n2 \<and> n2 \<le> int (length buffer) \<and> length buffer2 = length buffer \<and>
      (length (calls w2) = length (calls w) \<longrightarrow> n2 = 0 \<and> buffer2 = buffer) \<and>
      (length (calls w2) \<noteq> length (calls w) \<longrightarrow>
         n2 = int (min (length buffer) (length (delivered tr (calls w2) (length (calls w2) - 1)))) \<and>
         take (nat n2) buffer2 = take (nat n2) (delivered tr (calls w2) (length (calls w2) - 1)))) \<and>
   r_n (rangeAttempt tr rq s) =
     int (min (length (r_buffer s)) (length (concat (resp_data (tr (calls (r_world s)) rq))))) \<and>
   drop (nat (r_n (rangeAttempt tr rq s))) (r_buffer (rangeAttempt tr rq s)) =
     drop (nat (r_n (rangeAttempt tr rq s))) (r_buffer s)"
proof (intro conjI impI)
  assume "retriedFetchChunkData tr RetryWaitTime PathEscape w buffer urlStrings cipherKey isGzipped isFullChunk offset
      = Some (n, err, buffer', w')"
  note r = retried_range_result[OF this]
  show "0 \<le> n" "n \<le> int (length buffer)" "length buffer' = length buffer" using r by simp_all
  { assume "length (calls w') = length (calls w)"
    then show "n = 0" "buffer' = buffer" using r by simp_all }
  { assume "length (calls w') \<noteq> length (calls w)"
    then show "n = int (min (length buffer) (length (delivered tr (calls w') (length (calls w') - 1))))"
      "take (nat n) buffer' = take (nat n) (delivered tr (calls w') (length (calls w') - 1))"
      using r by blast+ }
next
  assume f: "fetchChunkRange tr RetryWaitTime PathEscape w buffer lookupFileIdFn fileId cipherKey isGzipped offset
      = Some (n2, err2, buffer2, w2)"
  have r: "0 \<le> n2 \<and> n2 \<le> int (length buffer) \<and> length buffer2 = length buffer \<and>
         (length (calls w2) = length (calls w) \<longrightarrow> n2 = 0 \<and> buffer2 = buffer) \<and>
         (length (calls w2) \<noteq> length (calls w) \<longrightarrow>
            n2 = int (min (length buffer) (length (delivered tr (calls w2) (length (calls w2) - 1)))) \<and>
            take (nat n2) buffer2 = take (nat n2) (delivered tr (calls w2) (length (calls w2) - 1)))"
  proof (cases "lookupFileIdFn fileId")
    case (Inl e)
    then show ?thesis using f by (simp add: fetchChunkRange_def)
  next
    case (Inr urls)
    then have "retriedFetchChunkData tr RetryWaitTime PathEscape w buffer urls cipherKey isGzipped False offset
      = Some (n2, err2, buffer2, w2)" using f by (simp add: fetchChunkRange_def)
    then show ?thesis by (rule retried_range_result)
  qed
  show "0 \<le> n2" "n2 \<le> int (length buffer)" "length buffer2 = length buffer" using r by simp_all
  { assume "length (calls w2) = length (calls w)"
    then show "n2 = 0" "buffer2 = buffer" using r by simp_all }
  { assume "length (calls w2) \<noteq> length (calls w)"
    then show "n2 = int (min (length buffer) (length (delivered tr (calls w2) (length (calls w2) - 1))))"
      "take (nat n2) buffer2 = take (nat n2) (delivered tr (calls w2) (length (calls w2) - 1))"
      using r by blast+ }
next
  show "r_n (rangeAttempt tr rq s) =
     int (min (length (r_buffer s)) (length (concat (resp_data (tr (calls (r_world s)) rq)))))"
    by (simp add: rangeAttempt_buffer)
  show "drop (nat (r_n (rangeAttempt tr rq s))) (r_buffer (rangeAttempt tr rq s)) =
     drop (nat (r_n (rangeAttempt tr rq s))) (r_buffer s)"
    by (rule rangeAttempt_tail)
qed

lemma stale_run:
  "retriedFetchChunkData staleTransport 6000000000 id emptyWorld [0, 0, 0, 0] [''a'', ''b''] [] False False 0 =
     Some (1, None, [9, 2, 3, 0],
           \<lparr>calls = [rangeRequest id ''a'' [] False False 0 4, rangeRequest id ''b'' [] False False 0 4],
            sleeps = []\<rparr>)"
  by (simp add: retriedFetchChunkData_def rangeRounds.simps Second_def Let_def rangeAttempt_def
      staleTransport_def emptyWorld_def copy_def)

lemma stale_fetch_run:
  "fetchChunkRange staleTransport 6000000000 id emptyWorld [0, 0, 0, 0] exampleLookup ''3,01'' [] False 0 =
     Some (1, None, [9, 2, 3, 0],
           \<lparr>calls = [rangeRequest id ''volume1/3,01'' [] False False 0 4,
                     rangeRequest id ''volume1/3,01'' [] False False 0 4],
            sleeps = [1000000000]\<rparr>)"
  by (simp add: fetchChunkRange_def exampleLookup_def retriedFetchChunkData_def rangeRounds.simps Second_def
      Let_def rangeAttempt_def staleTransport_def emptyWorld_def copy_def rangeSleep_def nextWait_def
      i64_def signed_divide_int_def)

text \<open>
  The session of \<open>staleTransport\<close>, over two locations and over one location
  in two rounds.
\<close>

theorem range_fetch_count_and_prefix_witness:
  "retriedFetchChunkData staleTransport 6000000000 id emptyWorld [0, 0, 0, 0] [''a'', ''b''] [] False False 0 =
     Some (1, None, [9, 2, 3, 0],
           \<lparr>calls = [rangeRequest id ''a'' [] False False 0 4, rangeRequest id ''b'' [] False False 0 4],
            sleeps = []\<rparr>) \<and>
   fetchChunkRange staleTransport 6000000000 id emptyWorld [0, 0, 0, 0] exampleLookup ''3,01'' [] False 0 =
     Some (1, None, [9, 2, 3, 0],
           \<lparr>calls = [rangeRequest id ''volume1/3,01'' [] False False 0 4,
                     rangeRequest id ''volume1/3,01'' [] False False 0 4],
            sleeps = [1000000000]\<rparr>) \<and>
   length [rangeRequest id ''a'' [] False False 0 4, rangeRequest id ''b'' [] False False 0 4] \<noteq> length (calls emptyWorld) \<and>
   (0 :: int) \<le> 1 \<and> (1 :: int) \<le> int (length [0, 0, 0, 0 :: byte]) \<and>
   (1 :: int) = int (min (length [0, 0, 0, 0 :: byte])
       (length (delivered staleTransport
          [rangeRequest id ''a'' [] False False 0 4, rangeRequest id ''b'' [] False False 0 4] 1))) \<and>
   take (nat 1) [9, 2, 3, 0 :: byte] =
     take (nat 1) (delivered staleTransport
          [rangeRequest id ''a'' [] False False 0 4, rangeRequest id ''b'' [] False False 0 4] 1)"
proof -
  note T = range_fetch_count_and_prefix[of staleTransport 6000000000 id emptyWorld "[0, 0, 0, 0]" "[''a'', ''b'']" "[]"
      False False 0 1 None "[9, 2, 3, 0]"
      "\<lparr>calls = [rangeRequest id ''a'' [] False False 0 4, rangeRequest id ''b'' [] False False 0 4], sleeps = []\<rparr>"
      exampleLookup "''3,01''" 1 None "[9, 2, 3, 0]"
      "\<lparr>calls = [rangeRequest id ''volume1/3,01'' [] False False 0 4,
                     rangeRequest id ''volume1/3,01'' [] False False 0 4], sleeps = [1000000000]\<rparr>"]
  have ne: "length [rangeRequest id ''a'' [] False False 0 4, rangeRequest id ''b'' [] False False 0 4] \<noteq> length (calls emptyWorld)"
    by (simp add: emptyWorld_def)
  show ?thesis using T stale_run stale_fetch_run ne by (simp add: emptyWorld_def)
qed

text \<open>
  C10 as stated fails: a first attempt that delivers the bytes 1, 2, 3 and fails
  retryably, followed by an attempt that delivers the byte 9 and succeeds, returns
  \<open>n = 1\<close> and leaves 2 and 3 in the buffer behind \<open>buffer[0:1]\<close>: bytes outside
  \<open>buffer[0:n]\<close> were written, and the buffer's contents do not reflect the final
  attempt alone.
\<close>

theorem range_fetch_stale_bytes_counterexample:
  "retriedFetchChunkData staleTransport 6000000000 id emptyWorld [0, 0, 0, 0] [''a'', ''b''] [] False False 0 =
     Some (1, None, [9, 2, 3, 0],
           \<lparr>calls = [rangeRequest id ''a'' [] False False 0 4, rangeRequest id ''b'' [] False False 0 4],
            sleeps = []\<rparr>) \<and>
   delivered staleTransport [rangeRequest id ''a'' [] False False 0 4, rangeRequest id ''b'' [] False False 0 4] 1 = [9] \<and>
   drop 1 [9, 2, 3, 0 :: byte] \<noteq> drop 1 [0, 0, 0, 0]"
  by (simp add: stale_run delivered_def staleTransport_def)

section \<open>The manifest builder\<close>

lemma splitLoop_filter:
  "splitLoop inputChunks (dataChunks, chunks) =
     (dataChunks @ filter (\<lambda>c. \<not> IsChunkManifest c) inputChunks, chunks @ filter IsChunkManifest inputChunks)"
  by (induction inputChunks arbitrary: dataChunks chunks) simp_all

lemma mergeIntoManifest_batch:
  "mergeIntoManifest bes marshal saveFunc st batch = Return (res, batch', st') \<Longrightarrow> batch' = map bes batch"
  by (auto simp: mergeIntoManifest_def Let_def split: sum.splits prod.splits option.splits)

lemma offsetRange_foldl:
  "foldl offsetRange (mn, mx) cs = (mn', mx') \<Longrightarrow>
     sint mn' = Min (insert (sint mn) ((\<lambda>c. sint (Offset c)) ` set cs)) \<and>
     sint mx' = Max (insert (sint mx) ((\<lambda>c. sint (Size c + Offset c)) ` set cs))"
proof (induction cs arbitrary: mn mx)
  case Nil
  then show ?case by simp
next
  case (Cons c cs)
  let ?mn1 = "if sint mn > sint (Offset c) then Offset c else mn"
  let ?mx1 = "if sint mx < sint (Size c + Offset c) then Size c + Offset c else mx"
  have "foldl offsetRange (?mn1, ?mx1) cs = (mn', mx')"
    using Cons.prems by (simp add: Let_def)
  from Cons.IH[OF this]
  have a: "sint mn' = Min (insert (sint ?mn1) ((\<lambda>c. sint (Offset c)) ` set cs))"
    and b: "sint mx' = Max (insert (sint ?mx1) ((\<lambda>c. sint (Size c + Offset c)) ` set cs))" by simp_all
  have m1: "sint ?mn1 = min (sint mn) (sint (Offset c))" by (simp add: min_def)
  have m2: "sint ?mx1 = max (sint mx) (sint (Size c + Offset c))" by (simp add: max_def)
  have "Min (insert (sint ?mn1) ((\<lambda>c. sint (Offset c)) ` set cs)) =
        Min (insert (sint mn) ((\<lambda>c. sint (Offset c)) ` set (c # cs)))"
    unfolding m1
    by (cases "cs = []") (simp_all add: min.assoc min.left_commute)
  moreover have "Max (insert (sint ?mx1) ((\<lambda>c. sint (Size c + Offset c)) ` set cs)) =
        Max (insert (sint mx) ((\<lambda>c. sint (Size c + Offset c)) ` set (c # cs)))"
    unfolding m2
    by (cases "cs = []") (simp_all add: max.assoc max.left_commute)
  ultimately show ?case using a b by simp
qed

lemma sint_MaxInt64: "sint MaxInt64 = 2 ^ 63 - 1"
  by (simp add: MaxInt64_def)

lemma sint_MinInt64: "sint MinInt64 = - (2 ^ 63)"
  by (simp add: MinInt64_def)

lemma sint_le_max64: "sint (x :: int64) \<le> 2 ^ 63 - 1"
  using sint_lt[of x] by simp

lemma sint_ge_min64: "- (2 ^ 63) \<le> sint (x :: int64)"
  using sint_ge[of x] by simp

lemma offsetRange_nonempty:
  assumes "cs \<noteq> []" and "foldl offsetRange (MaxInt64, MinInt64) cs = (mn, mx)"
  shows "sint mn = Min ((\<lambda>c. sint (Offset c)) ` set cs)"
    and "sint mx = Max ((\<lambda>c. sint (Size c + Offset c)) ` set cs)"
proof -
  let ?O = "(\<lambda>c. sint (Offset c)) ` set cs"
  let ?E = "(\<lambda>c. sint (Size c + Offset c)) ` set cs"
  have fin: "finite ?O" "finite ?E" and ne: "?O \<noteq> {}" "?E \<noteq> {}" using assms(1) by simp_all
  from offsetRange_foldl[OF assms(2)]
  have a: "sint mn = Min (insert (sint MaxInt64) ?O)" and b: "sint mx = Max (insert (sint MinInt64) ?E)"
    by simp_all
  have "Min ?O \<le> 2 ^ 63 - 1"
  proof -
    have "Min ?O \<in> ?O" using fin ne by (intro Min_in)
    moreover have "\<forall>x \<in> ?O. x \<le> 2 ^ 63 - 1" using sint_le_max64 by auto
    ultimately show ?thesis by blast
  qed
  then show "sint mn = Min ?O"
    unfolding a Min_insert[OF fin(1) ne(1)] sint_MaxInt64 by (simp add: min_def)
  have "- (2 ^ 63) \<le> Max ?E"
  proof -
    have "Max ?E \<in> ?E" using fin ne by (intro Max_in)
    moreover have "\<forall>x \<in> ?E. - (2 ^ 63) \<le> x" using sint_ge_min64 by auto
    ultimately show ?thesis by blast
  qed
  then show "sint mx = Max ?E"
    unfolding b Max_insert[OF fin(2) ne(2)] sint_MinInt64 by (simp add: max_def)
qed

lemma uint_sub_signed:
  fixes a b :: int64
  assumes "sint b \<le> sint a"
  shows "uint (a - b) = sint a - sint b"
proof -
  have lo: "0 \<le> sint a - sint b" using assms by simp
  have hi: "sint a - sint b < 2 ^ 64"
    using sint_le_max64[of a] sint_ge_min64[of b] by simp
  have "a - b = word_of_int (sint a - sint b)" by simp
  then have "uint (a - b) = (sint a - sint b) mod 2 ^ 64"
    by (simp only: uint_word_of_int) simp
  then show ?thesis using lo hi by simp
qed

subsection \<open>The range stamped on a manifest chunk\<close>

lemma mergeIntoManifest_success:
  assumes "mergeIntoManifest bes marshal saveFunc st dataChunks = Return (Inr manifestChunk, batch, st')"
  shows "\<exists>data mn mx mc. marshal (map bes dataChunks) = Inr data \<and>
           foldl offsetRange (MaxInt64, MinInt64) (map bes dataChunks) = (mn, mx) \<and>
           saveFunc st data [] 0 = ((Some mc, None), st') \<and>
           manifestChunk = mc\<lparr>IsChunkManifest := True, Offset := mn, Size := mx - mn\<rparr> \<and>
           batch = map bes dataChunks"
  using assms
  by (auto simp: mergeIntoManifest_def Let_def split: sum.splits prod.splits option.splits)

text \<open>
  C6, as the source has it. A successful \<^verbatim>\<open>mergeIntoManifest\<close> of a non-empty batch
  returns a descriptor with \<open>isManifest = true\<close>, whose offset is the least child
  offset and whose size is the greatest child end \<open>offset + size\<close> minus that offset,
  the ends being sums in \<^verbatim>\<open>int64\<close> arithmetic and compared as signed values, as the
  source computes them; where no child's end is beyond the largest \<^verbatim>\<open>int64\<close> the size
  is the greatest end minus the least offset on the integers. The children are the
  chunks of the batch as \<^verbatim>\<open>BeforeEntrySerialization\<close> left them, which are the ones
  serialised. Neither the serialised bytes nor the offset and size of the descriptor
  that the store returned enter the result.
\<close>

theorem merge_stamps_logical_range:
  assumes ne: "dataChunks \<noteq> []"
    and ok: "mergeIntoManifest BeforeEntrySerialization Marshal saveFunc st dataChunks = Return (Inr manifestChunk, batch, st')"
  shows "IsChunkManifest manifestChunk \<and> batch = map BeforeEntrySerialization dataChunks \<and>
         sint (Offset manifestChunk) = Min ((\<lambda>c. sint (Offset c)) ` set batch) \<and>
         (\<exists>maxOffset. sint maxOffset = Max ((\<lambda>c. sint (Size c + Offset c)) ` set batch) \<and>
                     Size manifestChunk = maxOffset - Offset manifestChunk) \<and>
         ((\<forall>c \<in> set batch. sint (Offset c) + uint (Size c) < 2 ^ 63) \<longrightarrow>
            uint (Size manifestChunk) =
              Max ((\<lambda>c. sint (Offset c) + uint (Size c)) ` set batch) - Min ((\<lambda>c. sint (Offset c)) ` set batch))"
proof -
  from mergeIntoManifest_success[OF ok] obtain data mn mx mc where
    f: "foldl offsetRange (MaxInt64, MinInt64) (map BeforeEntrySerialization dataChunks) = (mn, mx)"
    and m: "manifestChunk = mc\<lparr>IsChunkManifest := True, Offset := mn, Size := mx - mn\<rparr>"
    and b: "batch = map BeforeEntrySerialization dataChunks"
    by blast
  have bne: "batch \<noteq> []" using ne b by simp
  have f': "foldl offsetRange (MaxInt64, MinInt64) batch = (mn, mx)" using f b by simp
  note mm = offsetRange_nonempty[OF bne f']
  have c1: "IsChunkManifest manifestChunk" using m by simp
  have c3: "sint (Offset manifestChunk) = Min ((\<lambda>c. sint (Offset c)) ` set batch)"
    using m mm(1) by simp
  have c4: "\<exists>maxOffset. sint maxOffset = Max ((\<lambda>c. sint (Size c + Offset c)) ` set batch) \<and>
                     Size manifestChunk = maxOffset - Offset manifestChunk"
    using m mm(2) by (intro exI[of _ mx]) simp
  have c5: "uint (Size manifestChunk) =
              Max ((\<lambda>c. sint (Offset c) + uint (Size c)) ` set batch) - Min ((\<lambda>c. sint (Offset c)) ` set batch)"
    if no: "\<forall>c \<in> set batch. sint (Offset c) + uint (Size c) < 2 ^ 63"
  proof -
    have e: "sint (Size c + Offset c) = sint (Offset c) + uint (Size c)" if "c \<in> set batch" for c
      using sint_add_uint_no_overflow[of "Offset c" "Size c"] no that by (simp add: add.commute)
    then have img: "(\<lambda>c. sint (Size c + Offset c)) ` set batch = (\<lambda>c. sint (Offset c) + uint (Size c)) ` set batch"
      by (intro image_cong refl) simp
    have mx: "sint mx = Max ((\<lambda>c. sint (Offset c) + uint (Size c)) ` set batch)"
      using mm(2) img by simp
    obtain c where c: "c \<in> set batch" using bne by (cases batch) auto
    have "sint mn \<le> sint (Offset c)"
      unfolding mm(1) using c by (intro Min_le) simp_all
    also have "\<dots> \<le> sint (Offset c) + uint (Size c)" by simp
    also have "\<dots> \<le> sint mx"
      unfolding mx using c by (intro Max_ge) simp_all
    finally have le: "sint mn \<le> sint mx" .
    have "uint (Size manifestChunk) = uint (mx - mn)" using m by simp
    also have "\<dots> = sint mx - sint mn" using le by (rule uint_sub_signed)
    finally show ?thesis using mx mm(1) by simp
  qed
  show ?thesis using c1 b c3 c4 c5 by blast
qed

text \<open>
  Three children covering \<open>[0,10)\<close>, \<open>[10,20)\<close> and \<open>[100,150)\<close>, a payload of
  three bytes: the manifest chunk covers \<open>[0,150)\<close>.
\<close>

lemma merge_example_run:
  "mergeIntoManifest id exampleMarshal exampleSave 0 [innerLeaf, outerLeaf, boundaryChunk] =
     Return (Inr \<lparr>FileId = ''9,0a'', Offset = 0, Size = 150, CipherKey = [],
                  IsCompressed = False, IsChunkManifest = True\<rparr>,
             [innerLeaf, outerLeaf, boundaryChunk], Suc 0)"
  by (simp add: mergeIntoManifest_def exampleMarshal_def exampleSave_def Let_def
      innerLeaf_def outerLeaf_def boundaryChunk_def MaxInt64_def MinInt64_def)

theorem merge_stamps_logical_range_witness:
  "[innerLeaf, outerLeaf, boundaryChunk] \<noteq> [] \<and>
   mergeIntoManifest id exampleMarshal exampleSave 0 [innerLeaf, outerLeaf, boundaryChunk] =
     Return (Inr \<lparr>FileId = ''9,0a'', Offset = 0, Size = 150, CipherKey = [],
                  IsCompressed = False, IsChunkManifest = True\<rparr>,
             [innerLeaf, outerLeaf, boundaryChunk], Suc 0) \<and>
   sint (Offset innerLeaf) + uint (Size innerLeaf) < 2 ^ 63 \<and>
   sint (Offset outerLeaf) + uint (Size outerLeaf) < 2 ^ 63 \<and>
   sint (Offset boundaryChunk) + uint (Size boundaryChunk) < 2 ^ 63 \<and>
   length [1, 2, 3 :: byte] = 3 \<and>
   uint (150 :: uint64) =
     Max ((\<lambda>c. sint (Offset c) + uint (Size c)) ` set [innerLeaf, outerLeaf, boundaryChunk])
       - Min ((\<lambda>c. sint (Offset c)) ` set [innerLeaf, outerLeaf, boundaryChunk])"
proof -
  have ne: "[innerLeaf, outerLeaf, boundaryChunk] \<noteq> []" by simp
  have no: "sint (Offset innerLeaf) + uint (Size innerLeaf) < 2 ^ 63"
    "sint (Offset outerLeaf) + uint (Size outerLeaf) < 2 ^ 63"
    "sint (Offset boundaryChunk) + uint (Size boundaryChunk) < 2 ^ 63"
    by (simp_all add: innerLeaf_def outerLeaf_def boundaryChunk_def)
  have len: "length [1, 2, 3 :: byte] = 3" by simp
  from merge_stamps_logical_range[OF ne merge_example_run] no
  have rng: "uint (150 :: uint64) =
     Max ((\<lambda>c. sint (Offset c) + uint (Size c)) ` set [innerLeaf, outerLeaf, boundaryChunk])
       - Min ((\<lambda>c. sint (Offset c)) ` set [innerLeaf, outerLeaf, boundaryChunk])"
    by simp
  show ?thesis by (intro conjI ne merge_example_run no len rng)
qed

text \<open>
  C6 as stated fails where a child's end overflows: for the children \<open>[0, 2 ^ 63)\<close>
  and \<open>[0,10)\<close> the greatest end minus the least offset is \<open>2 ^ 63\<close>, and the size
  stamped is 10, the first end having wrapped to the least \<^verbatim>\<open>int64\<close>.
\<close>

theorem merge_range_overflow_counterexample:
  "mergeIntoManifest id exampleMarshal exampleSave 0 [overflowChunk, innerLeaf] =
     Return (Inr \<lparr>FileId = ''9,0a'', Offset = 0, Size = 10, CipherKey = [],
                  IsCompressed = False, IsChunkManifest = True\<rparr>,
             [overflowChunk, innerLeaf], Suc 0) \<and>
   max (sint (Offset overflowChunk) + uint (Size overflowChunk)) (sint (Offset innerLeaf) + uint (Size innerLeaf))
     - min (sint (Offset overflowChunk)) (sint (Offset innerLeaf)) = 2 ^ 63"
  by (simp add: mergeIntoManifest_def exampleMarshal_def exampleSave_def Let_def
      innerLeaf_def overflowChunk_def MaxInt64_def MinInt64_def)

subsection \<open>Batches of the manifest builder\<close>

lemma afterBatches_length: "length (afterBatches bes mf leaves j) = length leaves"
  by (simp add: afterBatches_def)

lemma afterBatches_0: "afterBatches bes mf leaves 0 = leaves"
  by (simp add: afterBatches_def)

lemma full_batch_fits:
  assumes "j < length leaves div mf"
  shows "j * mf + mf \<le> length (leaves :: 'a list)"
proof -
  have "Suc j \<le> length leaves div mf" using assms by simp
  then have "Suc j * mf \<le> (length leaves div mf) * mf" by (rule mult_le_mono1)
  also have "\<dots> \<le> length leaves" by simp
  finally show ?thesis by (simp add: add.commute)
qed

lemma afterBatches_batch:
  assumes "j * mf \<le> length leaves"
  shows "take mf (drop (j * mf) (afterBatches bes mf leaves j)) = batchAt mf leaves j"
  using assms by (simp add: afterBatches_def batchAt_def)

lemma afterBatches_drop:
  assumes "j * mf \<le> length leaves"
  shows "drop (j * mf) (afterBatches bes mf leaves j) = drop (j * mf) leaves"
  using assms by (simp add: afterBatches_def)

lemma afterBatches_Suc:
  assumes "j * mf + mf \<le> length leaves"
  shows "take (j * mf) (afterBatches bes mf leaves j) @ map bes (batchAt mf leaves j) @
           drop (j * mf + mf) (afterBatches bes mf leaves j) = afterBatches bes mf leaves (Suc j)"
proof -
  have l: "j * mf \<le> length leaves" using assms by simp
  have a: "take (j * mf) (afterBatches bes mf leaves j) = map bes (take (j * mf) leaves)"
    using l by (simp add: afterBatches_def)
  have b: "drop (j * mf + mf) (afterBatches bes mf leaves j) = drop (j * mf + mf) leaves"
    using l by (simp add: afterBatches_def add.commute)
  have c: "take (j * mf + mf) leaves = take (j * mf) leaves @ take mf (drop (j * mf) leaves)"
    by (simp add: take_add)
  have "afterBatches bes mf leaves (Suc j) =
          map bes (take (j * mf + mf) leaves) @ drop (j * mf + mf) leaves"
    by (simp add: afterBatches_def add.commute)
  also have "\<dots> = map bes (take (j * mf) leaves) @ map bes (take mf (drop (j * mf) leaves)) @
          drop (j * mf + mf) leaves"
    by (simp only: c map_append append_assoc)
  finally show ?thesis
    by (simp only: a b batchAt_def)
qed

lemma mergeLoop_batches:
  fixes leaves :: "FileChunk list" and mf :: nat and saveFunc :: "'s saveFn"
  assumes mf: "0 < mf" and j: "j \<le> length leaves div mf"
  shows "\<exists>r. mergeLoop (mergeIntoManifest bes marshal) saveFunc (int mf) st (afterBatches bes mf leaves j) chunks
               (int (length leaves) - int (j * mf)) (int (j * mf)) = Some r \<and>
           (r = Panic \<or>
            (\<exists>err st' j'. j \<le> j' \<and> j' < length leaves div mf \<and>
               r = Return ((afterBatches bes mf leaves (Suc j'), Some err), st') \<and>
               (\<exists>s1. mergeIntoManifest bes marshal saveFunc s1 (batchAt mf leaves j') =
                       Return (Inl err, map bes (batchAt mf leaves j'), st'))) \<or>
            (\<exists>synth st'. r = Return ((chunks @ synth @ drop ((length leaves div mf) * mf) leaves, None), st') \<and>
               length synth = length leaves div mf - j \<and>
               (\<forall>t < length leaves div mf - j. \<exists>s1 s2.
                  mergeIntoManifest bes marshal saveFunc s1 (batchAt mf leaves (j + t)) =
                    Return (Inr (synth ! t), map bes (batchAt mf leaves (j + t)), s2))))"
  using j
proof (induction "length leaves div mf - j" arbitrary: j st chunks)
  case 0
  let ?k = "length leaves div mf"
  from 0 have jk: "j = ?k" by simp
  have lt: "length leaves < ?k * mf + mf"
  proof -
    have "length leaves = ?k * mf + length leaves mod mf" by simp
    moreover have "length leaves mod mf < mf" using mf by simp
    ultimately show ?thesis by linarith
  qed
  have le: "?k * mf \<le> length leaves" by simp
  let ?dc = "afterBatches bes mf leaves ?k"
  have lt': "int (length leaves) < int (?k * mf) + int mf"
    using lt by (simp only: of_nat_less_iff flip: of_nat_add)
  have le': "int (?k * mf) \<le> int (length leaves)"
    using le by (simp only: of_nat_le_iff)
  have c1: "\<not> int (?k * mf) + int mf \<le> int (length ?dc)"
    unfolding afterBatches_length using lt' by linarith
  have c2: "\<not> (int (length ?dc) - (int (length leaves) - int (?k * mf)) < 0 \<and>
               int (length ?dc) - (int (length leaves) - int (?k * mf)) < int (length ?dc))"
    unfolding afterBatches_length using le' by linarith
  have c3: "nat (int (length ?dc) - (int (length leaves) - int (?k * mf))) = ?k * mf"
    unfolding afterBatches_length using le' by linarith
  have run: "mergeLoop (mergeIntoManifest bes marshal) saveFunc (int mf) st (afterBatches bes mf leaves j) chunks
               (int (length leaves) - int (j * mf)) (int (j * mf)) =
             Some (Return ((chunks @ drop (?k * mf) leaves, None), st))"
    unfolding jk
    by (subst mergeLoop.simps) (simp only: c1 c2 c3 if_False afterBatches_drop[OF le])
  show ?case
    unfolding run using jk by simp
next
  case (Suc d)
  let ?k = "length leaves div mf"
  from Suc.hyps(2) have jk: "j < ?k" by simp
  have fit: "j * mf + mf \<le> length leaves" using jk by (rule full_batch_fits)
  then have le: "j * mf \<le> length leaves" by simp
  let ?dc = "afterBatches bes mf leaves j"
  let ?batch = "batchAt mf leaves j"
  have batch: "take (nat (int mf)) (drop (nat (int (j * mf))) ?dc) = ?batch"
    by (simp only: nat_int afterBatches_batch[OF le])
  have cond: "int (j * mf) + int mf \<le> int (length ?dc)"
    unfolding afterBatches_length using fit by (simp only: of_nat_le_iff flip: of_nat_add)
  have nopanic: "\<not> int (j * mf) + int mf < int (j * mf)" by simp
  have wb: "take (nat (int (j * mf))) ?dc @ map bes ?batch @ drop (nat (int (j * mf) + int mf)) ?dc =
            afterBatches bes mf leaves (Suc j)"
  proof -
    have n2: "nat (int (j * mf) + int mf) = j * mf + mf"
      by (simp only: nat_int flip: of_nat_add)
    show ?thesis by (simp only: nat_int n2 afterBatches_Suc[OF fit])
  qed
  show ?case
  proof (cases "mergeIntoManifest bes marshal saveFunc st ?batch")
    case Panic
    have "mergeLoop (mergeIntoManifest bes marshal) saveFunc (int mf) st ?dc chunks
               (int (length leaves) - int (j * mf)) (int (j * mf)) = Some Panic"
      using cond nopanic Panic by (subst mergeLoop.simps) (simp only: batch if_True if_False outcome.case)
    then show ?thesis by simp
  next
    case (Return x)
    obtain res batch' st1 where x: "x = (res, batch', st1)" by (cases x) auto
    have b': "batch' = map bes ?batch"
      using Return x by (auto dest: mergeIntoManifest_batch)
    show ?thesis
    proof (cases res)
      case (Inl err)
      have "mergeLoop (mergeIntoManifest bes marshal) saveFunc (int mf) st ?dc chunks
               (int (length leaves) - int (j * mf)) (int (j * mf)) =
            Some (Return ((afterBatches bes mf leaves (Suc j), Some err), st1))"
        using cond nopanic Return x Inl b'
        by (subst mergeLoop.simps) (simp only: batch if_True if_False outcome.case prod.case sum.case wb)
      moreover have "mergeIntoManifest bes marshal saveFunc st ?batch = Return (Inl err, map bes ?batch, st1)"
        using Return x Inl b' by simp
      ultimately show ?thesis using jk by blast
    next
      case (Inr chunk)
      have step: "mergeLoop (mergeIntoManifest bes marshal) saveFunc (int mf) st ?dc chunks
               (int (length leaves) - int (j * mf)) (int (j * mf)) =
            mergeLoop (mergeIntoManifest bes marshal) saveFunc (int mf) st1 (afterBatches bes mf leaves (Suc j))
               (chunks @ [chunk]) (int (length leaves) - int (j * mf) - int mf) (int (j * mf) + int mf)"
        using cond nopanic Return x Inr b'
        by (subst mergeLoop.simps) (simp only: batch if_True if_False outcome.case prod.case sum.case wb)
      have args: "int (length leaves) - int (j * mf) - int mf = int (length leaves) - int (Suc j * mf)"
        "int (j * mf) + int mf = int (Suc j * mf)"
        by simp_all
      have d: "d = ?k - Suc j" using Suc.hyps(2) by simp
      have sj: "Suc j \<le> ?k" using jk by simp
      from Suc.hyps(1)[OF d sj, of st1 "chunks @ [chunk]"]
      obtain r where r: "mergeLoop (mergeIntoManifest bes marshal) saveFunc (int mf) st1 (afterBatches bes mf leaves (Suc j))
               (chunks @ [chunk]) (int (length leaves) - int (Suc j * mf)) (int (Suc j * mf)) = Some r"
        and g: "r = Panic \<or>
            (\<exists>err st' j'. Suc j \<le> j' \<and> j' < ?k \<and>
               r = Return ((afterBatches bes mf leaves (Suc j'), Some err), st') \<and>
               (\<exists>s1. mergeIntoManifest bes marshal saveFunc s1 (batchAt mf leaves j') =
                       Return (Inl err, map bes (batchAt mf leaves j'), st'))) \<or>
            (\<exists>synth st'. r = Return (((chunks @ [chunk]) @ synth @ drop (?k * mf) leaves, None), st') \<and>
               length synth = ?k - Suc j \<and>
               (\<forall>t < ?k - Suc j. \<exists>s1 s2.
                  mergeIntoManifest bes marshal saveFunc s1 (batchAt mf leaves (Suc j + t)) =
                    Return (Inr (synth ! t), map bes (batchAt mf leaves (Suc j + t)), s2)))"
        by blast
      have run: "mergeLoop (mergeIntoManifest bes marshal) saveFunc (int mf) st ?dc chunks
               (int (length leaves) - int (j * mf)) (int (j * mf)) = Some r"
        unfolding step args by (rule r)
      from g consider (p) "r = Panic"
        | (e) err st' j' where "Suc j \<le> j'" "j' < ?k" "r = Return ((afterBatches bes mf leaves (Suc j'), Some err), st')"
            "\<exists>s1. mergeIntoManifest bes marshal saveFunc s1 (batchAt mf leaves j') =
                       Return (Inl err, map bes (batchAt mf leaves j'), st')"
        | (s) synth st' where "r = Return (((chunks @ [chunk]) @ synth @ drop (?k * mf) leaves, None), st')"
            "length synth = ?k - Suc j"
            "\<forall>t < ?k - Suc j. \<exists>s1 s2.
                  mergeIntoManifest bes marshal saveFunc s1 (batchAt mf leaves (Suc j + t)) =
                    Return (Inr (synth ! t), map bes (batchAt mf leaves (Suc j + t)), s2)"
        by blast
      then show ?thesis
      proof cases
        case p
        then show ?thesis using run by simp
      next
        case e
        then have "j \<le> j'" by simp
        then show ?thesis using run e by blast
      next
        case s
        let ?synth = "chunk # synth"
        have r': "r = Return ((chunks @ ?synth @ drop (?k * mf) leaves, None), st')"
          using s(1) by simp
        have len: "length ?synth = ?k - j" using s(2) jk by simp
        have each: "\<forall>t < ?k - j. \<exists>s1 s2.
                  mergeIntoManifest bes marshal saveFunc s1 (batchAt mf leaves (j + t)) =
                    Return (Inr (?synth ! t), map bes (batchAt mf leaves (j + t)), s2)"
        proof (intro allI impI)
          fix t assume t: "t < ?k - j"
          show "\<exists>s1 s2. mergeIntoManifest bes marshal saveFunc s1 (batchAt mf leaves (j + t)) =
                    Return (Inr (?synth ! t), map bes (batchAt mf leaves (j + t)), s2)"
          proof (cases t)
            case 0
            then show ?thesis using Return x Inr b' by auto
          next
            case (Suc t')
            then have "t' < ?k - Suc j" using t by simp
            with s(3) obtain s1 s2 where
              "mergeIntoManifest bes marshal saveFunc s1 (batchAt mf leaves (Suc j + t')) =
                    Return (Inr (synth ! t'), map bes (batchAt mf leaves (Suc j + t')), s2)" by blast
            then show ?thesis using Suc by auto
          qed
        qed
        show ?thesis using run r' len each by blast
      qed
    qed
  qed
qed

lemma doMaybeManifestize_outcome:
  fixes saveFunc :: "'s saveFn"
  assumes mf: "0 < mf"
  shows "\<exists>r. doMaybeManifestize saveFunc st inputChunks (int mf) (mergeIntoManifest bes marshal) = Some r \<and>
           (r = Panic \<or>
            (\<exists>err st' j. j < length (filter (\<lambda>c. \<not> IsChunkManifest c) inputChunks) div mf \<and>
               r = Return ((afterBatches bes mf (filter (\<lambda>c. \<not> IsChunkManifest c) inputChunks) (Suc j), Some err), st') \<and>
               (\<exists>s1. mergeIntoManifest bes marshal saveFunc s1 (batchAt mf (filter (\<lambda>c. \<not> IsChunkManifest c) inputChunks) j) =
                       Return (Inl err, map bes (batchAt mf (filter (\<lambda>c. \<not> IsChunkManifest c) inputChunks) j), st'))) \<or>
            (\<exists>synth st'. r = Return ((filter IsChunkManifest inputChunks @ synth @
                                       drop ((length (filter (\<lambda>c. \<not> IsChunkManifest c) inputChunks) div mf) * mf)
                                         (filter (\<lambda>c. \<not> IsChunkManifest c) inputChunks), None), st') \<and>
               length synth = length (filter (\<lambda>c. \<not> IsChunkManifest c) inputChunks) div mf \<and>
               (\<forall>t < length (filter (\<lambda>c. \<not> IsChunkManifest c) inputChunks) div mf. \<exists>s1 s2.
                  mergeIntoManifest bes marshal saveFunc s1 (batchAt mf (filter (\<lambda>c. \<not> IsChunkManifest c) inputChunks) t) =
                    Return (Inr (synth ! t), map bes (batchAt mf (filter (\<lambda>c. \<not> IsChunkManifest c) inputChunks) t), s2))))"
proof -
  let ?leaves = "filter (\<lambda>c. \<not> IsChunkManifest c) inputChunks"
  have d: "doMaybeManifestize saveFunc st inputChunks (int mf) (mergeIntoManifest bes marshal) =
        mergeLoop (mergeIntoManifest bes marshal) saveFunc (int mf) st (afterBatches bes mf ?leaves 0)
          (filter IsChunkManifest inputChunks) (int (length ?leaves) - int (0 * mf)) (int (0 * mf))"
    by (simp add: doMaybeManifestize_def splitLoop_filter afterBatches_0)
  from mergeLoop_batches[OF mf, of 0 ?leaves bes marshal saveFunc st "filter IsChunkManifest inputChunks"]
  show ?thesis unfolding d by simp
qed

lemma mergeIntoManifest_isManifest:
  "mergeIntoManifest bes marshal saveFunc st batch = Return (Inr m, batch', st') \<Longrightarrow> IsChunkManifest m"
  by (drule mergeIntoManifest_success) auto

lemma batchAt_full_length:
  assumes "t < length xs div mf"
  shows "length (batchAt mf xs t) = mf"
  using full_batch_fits[OF assms] by (simp add: batchAt_def)

text \<open>
  C5. A call of \<^verbatim>\<open>MaybeManifestize\<close> that returns without error returns the manifest
  chunks of its input, in input order, then one synthesized manifest chunk for each
  full batch of 10000 leaf chunks, then the leaf chunks left over, fewer than 10000.
  The batches are the consecutive runs of 10000 of the leaf chunks in input order
  (\<open>batchAt 10000 leaves t\<close> for \<open>t\<close> below \<open>length leaves div 10000\<close>), and the
  \<open>t\<close>-th synthesized chunk is the one \<^verbatim>\<open>mergeIntoManifest\<close> returned for the \<open>t\<close>-th
  batch. In particular 25000 leaf chunks give two manifest chunks followed by the last
  5000 leaf chunks.
\<close>

theorem compact_groups_full_batches:
  assumes ok: "MaybeManifestize BeforeEntrySerialization Marshal saveFunc st inputChunks = Some (Return ((chunks, None), st'))"
  shows "(\<exists>synth.
            chunks = filter IsChunkManifest inputChunks @ synth @
                     drop ((length (filter (\<lambda>c. \<not> IsChunkManifest c) inputChunks) div 10000) * 10000)
                       (filter (\<lambda>c. \<not> IsChunkManifest c) inputChunks) \<and>
            length synth = length (filter (\<lambda>c. \<not> IsChunkManifest c) inputChunks) div 10000 \<and>
            (\<forall>t < length (filter (\<lambda>c. \<not> IsChunkManifest c) inputChunks) div 10000.
               IsChunkManifest (synth ! t) \<and>
               length (batchAt 10000 (filter (\<lambda>c. \<not> IsChunkManifest c) inputChunks) t) = 10000 \<and>
               (\<exists>s1 s2. mergeIntoManifest BeforeEntrySerialization Marshal saveFunc s1
                           (batchAt 10000 (filter (\<lambda>c. \<not> IsChunkManifest c) inputChunks) t) =
                         Return (Inr (synth ! t),
                                 map BeforeEntrySerialization (batchAt 10000 (filter (\<lambda>c. \<not> IsChunkManifest c) inputChunks) t),
                                 s2))) \<and>
            length (drop ((length (filter (\<lambda>c. \<not> IsChunkManifest c) inputChunks) div 10000) * 10000)
                       (filter (\<lambda>c. \<not> IsChunkManifest c) inputChunks)) < 10000) \<and>
         (length inputChunks = 25000 \<and> (\<forall>c \<in> set inputChunks. \<not> IsChunkManifest c) \<longrightarrow>
            (\<exists>m1 m2. chunks = [m1, m2] @ drop 20000 inputChunks \<and> IsChunkManifest m1 \<and> IsChunkManifest m2 \<and>
                     length (drop 20000 inputChunks) = 5000 \<and>
                     (\<forall>c \<in> set (drop 20000 inputChunks). \<not> IsChunkManifest c)))"
proof -
  let ?leaves = "filter (\<lambda>c. \<not> IsChunkManifest c) inputChunks"
  let ?k = "length ?leaves div 10000"
  have run: "doMaybeManifestize saveFunc st inputChunks (int 10000) (mergeIntoManifest BeforeEntrySerialization Marshal)
      = Some (Return ((chunks, None), st'))"
    using ok by (simp add: MaybeManifestize_def ManifestBatch_def)
  from doMaybeManifestize_outcome[of 10000 saveFunc st inputChunks BeforeEntrySerialization Marshal]
  obtain synth where s: "chunks = filter IsChunkManifest inputChunks @ synth @ drop (?k * 10000) ?leaves"
      "length synth = ?k"
      "\<forall>t < ?k. \<exists>s1 s2. mergeIntoManifest BeforeEntrySerialization Marshal saveFunc s1 (batchAt 10000 ?leaves t) =
                    Return (Inr (synth ! t), map BeforeEntrySerialization (batchAt 10000 ?leaves t), s2)"
    unfolding run by auto
  have each: "\<forall>t < ?k. IsChunkManifest (synth ! t) \<and> length (batchAt 10000 ?leaves t) = 10000 \<and>
               (\<exists>s1 s2. mergeIntoManifest BeforeEntrySerialization Marshal saveFunc s1 (batchAt 10000 ?leaves t) =
                         Return (Inr (synth ! t), map BeforeEntrySerialization (batchAt 10000 ?leaves t), s2))"
  proof (intro allI impI)
    fix t assume t: "t < ?k"
    with s(3) obtain s1 s2 where m: "mergeIntoManifest BeforeEntrySerialization Marshal saveFunc s1 (batchAt 10000 ?leaves t) =
                    Return (Inr (synth ! t), map BeforeEntrySerialization (batchAt 10000 ?leaves t), s2)" by blast
    show "IsChunkManifest (synth ! t) \<and> length (batchAt 10000 ?leaves t) = 10000 \<and>
               (\<exists>s1 s2. mergeIntoManifest BeforeEntrySerialization Marshal saveFunc s1 (batchAt 10000 ?leaves t) =
                         Return (Inr (synth ! t), map BeforeEntrySerialization (batchAt 10000 ?leaves t), s2))"
      using m mergeIntoManifest_isManifest[OF m] batchAt_full_length[OF t] by blast
  qed
  have rest: "length (drop (?k * 10000) ?leaves) < 10000"
  proof -
    have "length (drop (?k * 10000) ?leaves) = length ?leaves mod 10000"
      by (simp add: minus_div_mult_eq_mod)
    then show ?thesis by simp
  qed
  have first: "\<exists>synth.
            chunks = filter IsChunkManifest inputChunks @ synth @ drop (?k * 10000) ?leaves \<and>
            length synth = ?k \<and>
            (\<forall>t < ?k. IsChunkManifest (synth ! t) \<and> length (batchAt 10000 ?leaves t) = 10000 \<and>
               (\<exists>s1 s2. mergeIntoManifest BeforeEntrySerialization Marshal saveFunc s1 (batchAt 10000 ?leaves t) =
                         Return (Inr (synth ! t), map BeforeEntrySerialization (batchAt 10000 ?leaves t), s2))) \<and>
            length (drop (?k * 10000) ?leaves) < 10000"
    using s(1,2) each rest by blast
  have second: "\<exists>m1 m2. chunks = [m1, m2] @ drop 20000 inputChunks \<and> IsChunkManifest m1 \<and> IsChunkManifest m2 \<and>
                     length (drop 20000 inputChunks) = 5000 \<and>
                     (\<forall>c \<in> set (drop 20000 inputChunks). \<not> IsChunkManifest c)"
    if a: "length inputChunks = 25000 \<and> (\<forall>c \<in> set inputChunks. \<not> IsChunkManifest c)"
  proof -
    have lv: "?leaves = inputChunks" using a by (simp add: filter_id_conv)
    have mn: "filter IsChunkManifest inputChunks = []" using a by (simp add: filter_empty_conv)
    have k: "?k = 2" using a lv by simp
    have l2: "length synth = 2" using s(2) k by simp
    then obtain m1 m2 where sy: "synth = [m1, m2]"
      by (cases synth; cases "tl synth"; cases "tl (tl synth)") auto
    have i1: "IsChunkManifest m1" using each k sy by (auto dest: spec[of _ 0])
    have i2: "IsChunkManifest m2" using each k sy by (auto dest: spec[of _ 1])
    have c: "chunks = [m1, m2] @ drop 20000 inputChunks"
      using s(1) mn sy k lv by simp
    have l: "length (drop 20000 inputChunks) = 5000" using a by simp
    have nm: "\<forall>c \<in> set (drop 20000 inputChunks). \<not> IsChunkManifest c"
      using a by (meson in_set_dropD)
    show ?thesis using c i1 i2 l nm by blast
  qed
  show ?thesis using first second by blast
qed

text \<open>
  25000 copies of one leaf chunk covering \<open>[0,10)\<close>, with the example store and
  serialisation: two calls of the store, two manifest chunks covering \<open>[0,10)\<close> and
  5000 leaf chunks.
\<close>

lemma offsetRange_idem: "offsetRange (offsetRange acc c) c = offsetRange acc c"
  by (cases acc) (auto simp: Let_def)

lemma offsetRange_replicate:
  "foldl offsetRange acc (replicate (Suc n) c) = offsetRange acc c"
proof (induction n arbitrary: acc)
  case 0
  then show ?case by simp
next
  case (Suc n)
  have "foldl offsetRange acc (replicate (Suc (Suc n)) c) = foldl offsetRange (offsetRange acc c) (replicate (Suc n) c)"
    by simp
  also have "\<dots> = offsetRange (offsetRange acc c) c" by (rule Suc.IH)
  finally show ?case by (simp only: offsetRange_idem)
qed

lemma merge_replicate:
  "mergeIntoManifest id exampleMarshal exampleSave st (replicate 10000 innerLeaf) =
     Return (Inr exampleManifest, replicate 10000 innerLeaf, Suc st)"
proof -
  have "(10000 :: nat) = Suc 9999" by simp
  then have f: "foldl offsetRange (MaxInt64, MinInt64) (replicate 10000 innerLeaf) = offsetRange (MaxInt64, MinInt64) innerLeaf"
    by (simp only: offsetRange_replicate)
  have "offsetRange (MaxInt64, MinInt64) innerLeaf = (0, 10)"
    by (simp add: innerLeaf_def MaxInt64_def MinInt64_def Let_def)
  then have f': "foldl offsetRange (MaxInt64, MinInt64) (replicate 10000 innerLeaf) = (0, 10)"
    using f by simp
  show ?thesis
    by (simp add: mergeIntoManifest_def exampleMarshal_def exampleSave_def f' Let_def exampleManifest_def)
qed

lemma compact_example_run:
  "MaybeManifestize id exampleMarshal exampleSave 0 (replicate 25000 innerLeaf) =
     Some (Return (([exampleManifest, exampleManifest] @ replicate 5000 innerLeaf, None), 2))"
proof -
  have nm: "\<not> IsChunkManifest innerLeaf" by (simp add: innerLeaf_def)
  have sp: "splitLoop (replicate 25000 innerLeaf) ([], []) = (replicate 25000 innerLeaf, [])"
    using nm by (simp add: splitLoop_filter)
  show ?thesis
    unfolding MaybeManifestize_def ManifestBatch_def doMaybeManifestize_def sp
    apply (simp add: Let_def)
    apply (subst mergeLoop.simps, simp add: merge_replicate)
    apply (subst mergeLoop.simps, simp add: merge_replicate)
    apply (subst mergeLoop.simps, simp add: merge_replicate)
    done
qed

theorem compact_groups_full_batches_witness:
  "MaybeManifestize id exampleMarshal exampleSave 0 (replicate 25000 innerLeaf) =
     Some (Return (([exampleManifest, exampleManifest] @ replicate 5000 innerLeaf, None), 2)) \<and>
   length (replicate 25000 innerLeaf) = 25000 \<and>
   \<not> IsChunkManifest innerLeaf \<and>
   (\<exists>m1 m2. [exampleManifest, exampleManifest] @ replicate 5000 innerLeaf =
               [m1, m2] @ drop 20000 (replicate 25000 innerLeaf) \<and>
            IsChunkManifest m1 \<and> IsChunkManifest m2 \<and>
            length (drop 20000 (replicate 25000 innerLeaf)) = 5000)"
proof -
  have len: "length (replicate 25000 innerLeaf) = 25000" by simp
  have nm: "\<not> IsChunkManifest innerLeaf" by (simp add: innerLeaf_def)
  have prem: "length (replicate 25000 innerLeaf) = 25000 \<and>
              (\<forall>c \<in> set (replicate 25000 innerLeaf). \<not> IsChunkManifest c)"
    using nm by simp
  from compact_groups_full_batches[OF compact_example_run, THEN conjunct2, THEN mp, OF prem]
  have ex: "\<exists>m1 m2. [exampleManifest, exampleManifest] @ replicate 5000 innerLeaf =
               [m1, m2] @ drop 20000 (replicate 25000 innerLeaf) \<and>
            IsChunkManifest m1 \<and> IsChunkManifest m2 \<and>
            length (drop 20000 (replicate 25000 innerLeaf)) = 5000"
    by blast
  show ?thesis by (intro conjI compact_example_run len nm ex)
qed

subsection \<open>A failed merge\<close>












end
